theory Spec2Isabelle
  imports Complex_Main "HOL-Library.Word"
begin

text \<open>
  The class \<open>TiledSwirl\<close> and the class \<open>Utils\<close> of \<open>src/javascript/sketch.js\<close> (lines 35
  to 180), with the window, the canvas element, the 2D context and the random source as
  explicit arguments. The TypeScript variant that follows in the same file (a square
  canvas, \<open>Math.floor\<close> for rows and columns) is not what is modelled.
\<close>

section \<open>JavaScript numbers\<close>

text \<open>
  The sketch computes with JavaScript numbers. A number is modelled as a real or one of
  the three non-finite values, so that a division by zero is a value of the model
  (\<open>Infinity\<close>, \<open>-Infinity\<close> or \<open>NaN\<close>) as it is in the program. The operations of this
  section give the exact result on finite numbers; the operations as the program
  performs them round that result to binary64, and are defined from these in the
  sections on binary64 below, with the methods that compute with them. The statements
  about bounds, about the number of rows and columns and about what \<open>draw\<close> throws are
  made of the rounded methods; the exact ones serve where rounding plays no part (which
  fields a method writes, the colour table) and for the values over the reals. The sign
  of zero is not modelled: a zero divisor counts as \<open>+0\<close>.
\<close>

datatype number = Fin real | PInf | NInf | NaN

fun js_neg :: "number \<Rightarrow> number" where
  "js_neg (Fin a) = Fin (- a)"
| "js_neg PInf = NInf"
| "js_neg NInf = PInf"
| "js_neg NaN = NaN"

fun js_add :: "number \<Rightarrow> number \<Rightarrow> number" where
  "js_add (Fin a) (Fin b) = Fin (a + b)"
| "js_add NaN y = NaN"
| "js_add x NaN = NaN"
| "js_add PInf NInf = NaN"
| "js_add NInf PInf = NaN"
| "js_add PInf y = PInf"
| "js_add x PInf = PInf"
| "js_add NInf y = NInf"
| "js_add x NInf = NInf"

definition js_sub :: "number \<Rightarrow> number \<Rightarrow> number" where
  "js_sub x y = js_add x (js_neg y)"

text \<open>The sign of a number that is not \<open>NaN\<close>: \<open>True\<close> for negative.\<close>

fun js_negative :: "number \<Rightarrow> bool" where
  "js_negative (Fin a) = (a < 0)"
| "js_negative NInf = True"
| "js_negative PInf = False"
| "js_negative NaN = False"

definition js_inf :: "bool \<Rightarrow> number" where
  "js_inf negative = (if negative then NInf else PInf)"

fun js_mul :: "number \<Rightarrow> number \<Rightarrow> number" where
  "js_mul (Fin a) (Fin b) = Fin (a * b)"
| "js_mul NaN y = NaN"
| "js_mul x NaN = NaN"
| "js_mul (Fin a) y = (if a = 0 then NaN else js_inf ((a < 0) \<noteq> js_negative y))"
| "js_mul x (Fin b) = (if b = 0 then NaN else js_inf (js_negative x \<noteq> (b < 0)))"
| "js_mul x y = js_inf (js_negative x \<noteq> js_negative y)"

fun js_div :: "number \<Rightarrow> number \<Rightarrow> number" where
  "js_div (Fin a) (Fin b) =
     (if b \<noteq> 0 then Fin (a / b) else if a = 0 then NaN else js_inf (a < 0))"
| "js_div NaN y = NaN"
| "js_div x NaN = NaN"
| "js_div (Fin a) y = Fin 0"
| "js_div x (Fin b) = js_inf (js_negative x \<noteq> (b < 0))"
| "js_div x y = NaN"

text \<open>The comparison \<open>x < y\<close>: false as soon as one side is \<open>NaN\<close>.\<close>

fun js_lt :: "number \<Rightarrow> number \<Rightarrow> bool" where
  "js_lt (Fin a) (Fin b) = (a < b)"
| "js_lt NaN y = False"
| "js_lt x NaN = False"
| "js_lt x NInf = False"
| "js_lt PInf y = False"
| "js_lt x PInf = True"
| "js_lt NInf y = True"

text \<open>\<open>Math.min\<close> and \<open>Math.max\<close> of two arguments: \<open>NaN\<close> if either is.\<close>

fun Math_min :: "number \<Rightarrow> number \<Rightarrow> number" where
  "Math_min NaN y = NaN"
| "Math_min x NaN = NaN"
| "Math_min x y = (if js_lt y x then y else x)"

fun Math_max :: "number \<Rightarrow> number \<Rightarrow> number" where
  "Math_max NaN y = NaN"
| "Math_max x NaN = NaN"
| "Math_max x y = (if js_lt x y then y else x)"

fun Math_ceil :: "number \<Rightarrow> number" where
  "Math_ceil (Fin a) = Fin (of_int \<lceil>a\<rceil>)"
| "Math_ceil x = x"

fun Math_floor :: "number \<Rightarrow> number" where
  "Math_floor (Fin a) = Fin (of_int \<lfloor>a\<rfloor>)"
| "Math_floor x = x"

fun Math_sqrt :: "number \<Rightarrow> number" where
  "Math_sqrt (Fin a) = (if a < 0 then NaN else Fin (sqrt a))"
| "Math_sqrt PInf = PInf"
| "Math_sqrt NInf = NaN"
| "Math_sqrt NaN = NaN"

text \<open>\<open>Math.pow(x, 2)\<close> and \<open>x ** 2\<close>.\<close>

fun js_square :: "number \<Rightarrow> number" where
  "js_square (Fin a) = Fin (a ^ 2)"
| "js_square NaN = NaN"
| "js_square x = PInf"

fun Math_sin :: "number \<Rightarrow> number" where
  "Math_sin (Fin a) = Fin (sin a)"
| "Math_sin x = NaN"

text \<open>
  \<open>Math.atan2(y, x)\<close> on finite arguments, with its value in \<open>(-pi, pi]\<close> and
  \<open>atan2(0, 0) = 0\<close>.
\<close>

definition atan2 :: "real \<Rightarrow> real \<Rightarrow> real" where
  "atan2 y x =
     (if 0 < x then arctan (y / x)
      else if x < 0 then (if 0 \<le> y then arctan (y / x) + pi else arctan (y / x) - pi)
      else if 0 < y then pi / 2
      else if y < 0 then - (pi / 2)
      else 0)"

fun Math_atan2 :: "number \<Rightarrow> number \<Rightarrow> number" where
  "Math_atan2 (Fin y) (Fin x) = Fin (atan2 y x)"
| "Math_atan2 NaN x = NaN"
| "Math_atan2 y NaN = NaN"
| "Math_atan2 (Fin y) PInf = Fin 0"
| "Math_atan2 (Fin y) NInf = Fin (if y < 0 then - pi else pi)"
| "Math_atan2 PInf (Fin x) = Fin (pi / 2)"
| "Math_atan2 NInf (Fin x) = Fin (- (pi / 2))"
| "Math_atan2 PInf PInf = Fin (pi / 4)"
| "Math_atan2 PInf NInf = Fin (3 * pi / 4)"
| "Math_atan2 NInf PInf = Fin (- (pi / 4))"
| "Math_atan2 NInf NInf = Fin (- (3 * pi / 4))"

section \<open>Utils\<close>

text \<open>
  \<open>Utils.random\<close> divides one 32-bit value from \<open>crypto.getRandomValues\<close> by \<open>2 ** 32\<close>;
  the value drawn is the argument here.
\<close>

definition Utils_random :: "32 word \<Rightarrow> number" where
  "Utils_random u = js_div (Fin (real (unat u))) (Fin (2 ^ 32))"

definition Utils_smoothStep :: "number \<Rightarrow> number \<Rightarrow> number \<Rightarrow> number" where
  "Utils_smoothStep x edge1 edge2 =
     (let x = Math_max (Fin 0) (Math_min (Fin 1) (js_div (js_sub x edge1) (js_sub edge2 edge1)))
      in js_mul (js_mul x x) (js_sub (Fin 3) (js_mul (Fin 2) x)))"

section \<open>Arrays, exceptions and loops\<close>

text \<open>
  A JavaScript array is a list of optional elements: \<open>None\<close> is a hole, which reads as
  \<open>undefined\<close>, as does every index past the end. A write past the end extends the array.
\<close>

type_synonym 'a array = "'a option list"

definition js_get :: "'a array \<Rightarrow> nat \<Rightarrow> 'a option" where
  "js_get xs i = (if i < length xs then xs ! i else None)"

definition js_set :: "'a array \<Rightarrow> nat \<Rightarrow> 'a option \<Rightarrow> 'a array" where
  "js_set xs i v =
     (if i < length xs then xs[i := v] else xs @ replicate (i - length xs) None @ [v])"

text \<open>
  The only exception the sketch can raise is the \<open>TypeError\<close> of reading a property of
  \<open>undefined\<close>. A completion carries the state reached, since the effects before a throw
  stay.
\<close>

datatype error = TypeError

datatype 'a completion = Normal 'a | Throw error 'a

text \<open>
  \<open>for (let i = i0; i < bound; i++) body\<close>. The bound is a number, so the loop runs
  forever when it is \<open>Infinity\<close>; not returning is the value \<open>None\<close>. A throw in the body
  leaves the loop.
\<close>

partial_function (option) for_loop ::
  "number \<Rightarrow> (nat \<Rightarrow> 'a \<Rightarrow> 'a completion option) \<Rightarrow> nat \<Rightarrow> 'a \<Rightarrow> 'a completion option" where
  "for_loop bound body i acc =
     (if js_lt (Fin (real i)) bound
      then (case body i acc of
              None \<Rightarrow> None
            | Some (Throw e acc') \<Rightarrow> Some (Throw e acc')
            | Some (Normal acc') \<Rightarrow> for_loop bound body (Suc i) acc')
      else Some (Normal acc))"

section \<open>The environment\<close>

text \<open>
  What the sketch reads from \<open>window\<close> and from the theme media query, and the canvas
  element it writes. The canvas keeps the numbers assigned to it; its style lengths are
  kept as numbers of pixels. The 2D rendering target is the list of the calls made on it.
\<close>

record window =
  innerWidth :: number
  innerHeight :: number
  devicePixelRatio :: number
  themeQuery_matches :: bool

record canvas =
  width :: number
  height :: number
  style_width :: number
  style_height :: number

datatype call =
  Scale number number
| ClearRect number number number number
| FillStyle string
| FillRect number number number number

section \<open>TiledSwirl\<close>

record TiledSwirl =
  density :: number
  edge :: number
  ripple :: number
  speed :: number
  tightness :: number
  palette :: "string list"
  rows :: number
  cols :: number
  size_tile :: number
  time :: number
  distanceMax :: number
  isDark :: bool
  colors :: "string array array"
  canvas :: "canvas option"
  ctx :: "call list option"

text \<open>The field initialisers of the class, with the constructor's two assignments.\<close>

definition TiledSwirl_fields :: "canvas \<Rightarrow> call list option \<Rightarrow> TiledSwirl" where
  "TiledSwirl_fields cv ctx1 =
     \<lparr>density = Fin 32, edge = Fin 0.1, ripple = Fin 5, speed = Fin 0.03, tightness = Fin 3,
      palette = ['''', ''hsl(343, 90%, 50%)'', ''hsl(43, 90%, 50%)'', ''hsl(223, 90%, 50%)''],
      rows = Fin 0, cols = Fin 0, size_tile = Fin 0, time = Fin 0, distanceMax = Fin 0,
      isDark = False, colors = [], canvas = Some cv, ctx = ctx1\<rparr>"

definition blankColor :: "TiledSwirl \<Rightarrow> string" where
  "blankColor this = (if isDark this then ''hsl(0, 0%, 100%)'' else ''hsl(0, 0%, 0%)'')"

definition canvasResize :: "TiledSwirl \<Rightarrow> window \<Rightarrow> TiledSwirl" where
  "canvasResize this win =
     (case canvas this of
        None \<Rightarrow> this
      | Some cv0 \<Rightarrow>
          let ratio = devicePixelRatio win;
              cv = cv0\<lparr>width := js_mul (innerWidth win) ratio,
                       height := js_mul (innerHeight win) ratio,
                       style_width := innerWidth win,
                       style_height := innerHeight win\<rparr>;
              ctx1 = map_option (\<lambda>calls. calls @ [Scale ratio ratio]) (ctx this);
              size1 = js_div (js_div (Math_min (width cv) (height cv)) (density this)) ratio;
              rows1 = Math_ceil (js_div (js_div (height cv) size1) ratio);
              cols1 = Math_ceil (js_div (js_div (width cv) size1) ratio);
              halfWidth = js_div (js_div (width cv) (Fin 2)) ratio;
              halfHeight = js_div (js_div (height cv) (Fin 2)) ratio
          in this\<lparr>canvas := Some cv, ctx := ctx1, size_tile := size1, rows := rows1,
                   cols := cols1,
                   distanceMax := Math_sqrt (js_add (js_square halfWidth) (js_square halfHeight))\<rparr>)"

definition checkDarkTheme :: "TiledSwirl \<Rightarrow> window \<Rightarrow> TiledSwirl" where
  "checkDarkTheme this win = this\<lparr>isDark := themeQuery_matches win\<rparr>"

text \<open>\<open>palette[index]\<close>: \<open>undefined\<close> unless the index is an integer within the array.\<close>

definition palette_at :: "string list \<Rightarrow> number \<Rightarrow> string option" where
  "palette_at p index =
     (case index of
        Fin k \<Rightarrow>
          if 0 \<le> k \<and> k < real (length p) \<and> k = of_int \<lfloor>k\<rfloor> then Some (p ! nat \<lfloor>k\<rfloor>) else None
      | _ \<Rightarrow> None)"

text \<open>
  The body of the inner loop of \<open>colorsInit\<close>. The loop state is the array \<open>colors\<close> and
  the number of random values drawn so far; \<open>entropy k\<close> is the value the \<open>k\<close>-th call of
  \<open>crypto.getRandomValues\<close> gives.
\<close>

definition colorsInit_cell ::
  "TiledSwirl \<Rightarrow> (nat \<Rightarrow> 32 word) \<Rightarrow> nat \<Rightarrow> nat \<Rightarrow> string array array \<times> nat
   \<Rightarrow> (string array array \<times> nat) completion option" where
  "colorsInit_cell this entropy i j st =
     (case st of (cs, k) \<Rightarrow>
        let index = Math_floor (js_mul (Utils_random (entropy k)) (Fin (real (length (palette this)))))
        in case js_get cs i of
             None \<Rightarrow> Some (Throw TypeError (cs, Suc k))
           | Some row \<Rightarrow>
               Some (Normal (js_set cs i (Some (js_set row j (palette_at (palette this) index))),
                             Suc k)))"

definition colorsInit_column ::
  "TiledSwirl \<Rightarrow> (nat \<Rightarrow> 32 word) \<Rightarrow> nat \<Rightarrow> string array array \<times> nat
   \<Rightarrow> (string array array \<times> nat) completion option" where
  "colorsInit_column this entropy i st =
     (case st of (cs, k) \<Rightarrow>
        for_loop (rows this) (colorsInit_cell this entropy i) 0 (js_set cs i (Some []), k))"

definition colorsInit :: "TiledSwirl \<Rightarrow> (nat \<Rightarrow> 32 word) \<Rightarrow> TiledSwirl completion option" where
  "colorsInit this entropy =
     (case for_loop (cols this) (colorsInit_column this entropy) 0 ([], 0) of
        None \<Rightarrow> None
      | Some (Normal (cs, k)) \<Rightarrow> Some (Normal (this\<lparr>colors := cs\<rparr>))
      | Some (Throw e (cs, k)) \<Rightarrow> Some (Throw e (this\<lparr>colors := cs\<rparr>)))"

text \<open>The size of tile \<open>(i, j)\<close>, as the body of the loops of \<open>draw\<close> computes it.\<close>

definition tileSize :: "TiledSwirl \<Rightarrow> number \<Rightarrow> number \<Rightarrow> nat \<Rightarrow> nat \<Rightarrow> number" where
  "tileSize this centerX centerY i j =
     (let x = js_mul (Fin (real i)) (size_tile this);
          y = js_mul (Fin (real j)) (size_tile this);
          legHorizontal = js_square (js_sub (js_add x (js_div (size_tile this) (Fin 2))) centerX);
          legVertical = js_square (js_sub (js_add y (js_div (size_tile this) (Fin 2))) centerY);
          dist = Math_sqrt (js_add legHorizontal legVertical);
          distNormalized = js_div dist (distanceMax this);
          angleX = js_sub (js_add x (js_div (size_tile this) (Fin 2))) centerX;
          angleY = js_sub (js_add y (js_div (size_tile this) (Fin 2))) centerY;
          angle = Math_atan2 angleY angleX;
          rippleFactor = js_mul (tightness this) (js_add (Fin 1) (js_mul distNormalized (ripple this)));
          wave = Math_sin (js_sub (js_add (js_mul distNormalized rippleFactor) angle) (time this));
          waveNormalized = js_div (js_add wave (Fin 1)) (Fin 2);
          edge1 = js_sub (Fin 0.5) (edge this);
          edge2 = js_add (Fin 0.5) (edge this);
          waveEdged = Utils_smoothStep waveNormalized edge1 edge2
      in js_add (js_mul (size_tile this) (Fin 0.2)) (js_mul (js_mul (size_tile this) (Fin 0.8)) waveEdged))"


text \<open>The rest of the body: the fill style and the rectangle of tile \<open>(i, j)\<close>.\<close>

definition draw_cell ::
  "TiledSwirl \<Rightarrow> number \<Rightarrow> number \<Rightarrow> nat \<Rightarrow> nat \<Rightarrow> call list \<Rightarrow> call list completion option" where
  "draw_cell this centerX centerY i j calls =
     (let x = js_mul (Fin (real i)) (size_tile this);
          y = js_mul (Fin (real j)) (size_tile this);
          tileSize1 = tileSize this centerX centerY i j;
          tileX = js_add x (js_div (js_sub (size_tile this) tileSize1) (Fin 2));
          tileY = js_add y (js_div (js_sub (size_tile this) tileSize1) (Fin 2))
      in case js_get (colors this) i of
           None \<Rightarrow> Some (Throw TypeError calls)
         | Some row \<Rightarrow>
             let fillStyle = (case js_get row j of
                                None \<Rightarrow> blankColor this
                              | Some c \<Rightarrow> if c = [] then blankColor this else c)
             in Some (Normal (calls @ [FillStyle fillStyle, FillRect tileX tileY tileSize1 tileSize1])))"

definition centerX_of :: "canvas \<Rightarrow> window \<Rightarrow> number" where
  "centerX_of cv win = js_div (js_div (width cv) (devicePixelRatio win)) (Fin 2)"

definition centerY_of :: "canvas \<Rightarrow> window \<Rightarrow> number" where
  "centerY_of cv win = js_div (js_div (height cv) (devicePixelRatio win)) (Fin 2)"

definition draw :: "TiledSwirl \<Rightarrow> window \<Rightarrow> TiledSwirl completion option" where
  "draw this win =
     (case (canvas this, ctx this) of
        (Some cv, Some calls) \<Rightarrow>
          let centerX = centerX_of cv win;
              centerY = centerY_of cv win
          in (case for_loop (cols this)
                     (\<lambda>i. for_loop (rows this) (draw_cell this centerX centerY i) 0) 0 calls of
                None \<Rightarrow> None
              | Some (Normal calls') \<Rightarrow> Some (Normal (this\<lparr>ctx := Some calls'\<rparr>))
              | Some (Throw e calls') \<Rightarrow> Some (Throw e (this\<lparr>ctx := Some calls'\<rparr>)))
      | _ \<Rightarrow> Some (Normal this))"

text \<open>One frame of \<open>animate\<close>; the environment schedules the next one.\<close>

definition animate :: "TiledSwirl \<Rightarrow> window \<Rightarrow> TiledSwirl completion option" where
  "animate this win =
     (case (canvas this, ctx this) of
        (Some cv, Some calls) \<Rightarrow>
          draw (this\<lparr>ctx := Some (calls @ [ClearRect (Fin 0) (Fin 0) (width cv) (height cv)]),
                     time := js_add (time this) (speed this)\<rparr>) win
      | _ \<Rightarrow> Some (Normal this))"

definition constructor ::
  "canvas \<Rightarrow> call list option \<Rightarrow> window \<Rightarrow> (nat \<Rightarrow> 32 word) \<Rightarrow> TiledSwirl completion option" where
  "constructor cv ctx1 win entropy =
     (let this = TiledSwirl_fields cv ctx1;
          this = canvasResize this win;
          this = checkDarkTheme this win
      in case colorsInit this entropy of
           None \<Rightarrow> None
         | Some (Throw e this) \<Rightarrow> Some (Throw e this)
         | Some (Normal this) \<Rightarrow> animate this win)"

section \<open>The specification's formulas\<close>

text \<open>
  The record that \<open>computeGeometry(viewportWidth, viewportHeight, pixelRatio, density)\<close>
  returns.
\<close>

record Grid =
  tileEdge :: number
  grid_rows :: number
  grid_cols :: number
  centerX :: number
  centerY :: number
  maxDistance :: number




section \<open>The scenario of the specification's examples\<close>

text \<open>A canvas element of the default size, in a viewport of 800 by 600 at pixel ratio 1.\<close>

definition canvas0 :: canvas where
  "canvas0 = \<lparr>width = Fin 300, height = Fin 150, style_width = Fin 300, style_height = Fin 150\<rparr>"

definition window_800x600 :: window where
  "window_800x600 =
     \<lparr>innerWidth = Fin 800, innerHeight = Fin 600, devicePixelRatio = Fin 1,
      themeQuery_matches = False\<rparr>"

text \<open>
  A square viewport of 20 by 20: one tile when the density is 1, 32 by 32 tiles at the
  default density.
\<close>

definition window_20x20 :: window where
  "window_20x20 =
     \<lparr>innerWidth = Fin 20, innerHeight = Fin 20, devicePixelRatio = Fin 1,
      themeQuery_matches = False\<rparr>"


section \<open>Predicates on the colour table\<close>

text \<open>
  The value that the \<open>k\<close>-th draw of \<open>colorsInit\<close> stores: the palette entry at the
  floored product of the random number and the palette length.
\<close>

definition cell_value :: "TiledSwirl \<Rightarrow> (nat \<Rightarrow> 32 word) \<Rightarrow> nat \<Rightarrow> string option" where
  "cell_value this entropy k =
     palette_at (palette this)
       (Math_floor (js_mul (Utils_random (entropy k)) (Fin (real (length (palette this))))))"

text \<open>An entry is a colour of the palette; every entry of a row satisfies \<open>E\<close>; a row has \<open>n\<close> entries.\<close>

definition palette_entry :: "string list \<Rightarrow> string option \<Rightarrow> bool" where
  "palette_entry p v = (case v of None \<Rightarrow> False | Some c \<Rightarrow> c \<in> set p)"

definition row_all :: "(string option \<Rightarrow> bool) \<Rightarrow> string array option \<Rightarrow> bool" where
  "row_all E r = (case r of None \<Rightarrow> False | Some row \<Rightarrow> list_all E row)"

definition row_length :: "nat \<Rightarrow> string array option \<Rightarrow> bool" where
  "row_length n r = (case r of None \<Rightarrow> False | Some row \<Rightarrow> length row = n)"

text \<open>
  The invariants of the loops of \<open>colorsInit\<close>: inside column \<open>i\<close>, after \<open>j\<close> cells, the
  columns before \<open>i\<close> are those of \<open>cs0\<close> and column \<open>i\<close> has \<open>j\<close> entries; after \<open>i\<close>
  columns the table has \<open>i\<close> rows of entries, of \<open>n\<close> entries each when the row count is
  finite.
\<close>

definition column_inv ::
  "(string option \<Rightarrow> bool) \<Rightarrow> string array array \<Rightarrow> nat \<Rightarrow> nat \<Rightarrow> string array array \<times> nat \<Rightarrow> bool" where
  "column_inv E cs0 i j st =
     (case st of (cs, k) \<Rightarrow>
        length cs = Suc i \<and> take i cs = cs0 \<and> row_all E (cs ! i) \<and> row_length j (cs ! i))"

definition table_inv :: "(string option \<Rightarrow> bool) \<Rightarrow> nat \<Rightarrow> string array array \<times> nat \<Rightarrow> bool" where
  "table_inv E i st = (case st of (cs, k) \<Rightarrow> length cs = i \<and> list_all (row_all E) cs)"

definition grid_inv ::
  "(string option \<Rightarrow> bool) \<Rightarrow> nat \<Rightarrow> nat \<Rightarrow> string array array \<times> nat \<Rightarrow> bool" where
  "grid_inv E n i st =
     (case st of (cs, k) \<Rightarrow> length cs = i \<and> list_all (row_all E) cs \<and> list_all (row_length n) cs)"

text \<open>
  A random source of zeros, which gives the first palette entry everywhere, a viewport
  twice as wide as high, and the state of a new sketch in the square viewport just
  before \<open>colorsInit\<close> (a 32 by 32 grid).
\<close>

definition entropy_zero :: "nat \<Rightarrow> 32 word" where
  "entropy_zero k = 0"

definition window_40x20 :: window where
  "window_40x20 =
     \<lparr>innerWidth = Fin 40, innerHeight = Fin 20, devicePixelRatio = Fin 1,
      themeQuery_matches = False\<rparr>"

definition swirl_before_colors :: TiledSwirl where
  "swirl_before_colors =
     checkDarkTheme (canvasResize (TiledSwirl_fields canvas0 (Some [])) window_20x20) window_20x20"

section \<open>Binary64 rounding\<close>

text \<open>
  Every arithmetic operation of the program rounds its exact result to the nearest
  double, ties to the double with an even significand, and overflows to an infinity.
  \<open>round_even\<close> rounds a real to the nearest integer, ties to even; \<open>expo x\<close> is the
  exponent of the binade of \<open>x\<close>, at least that of the subnormal numbers; \<open>rnd x\<close> is the
  multiple of \<open>2 ^ (expo x - 52)\<close> nearest to \<open>x\<close>, and \<open>fl x\<close> the number that an operation
  with exact result \<open>x\<close> gives. \<open>r64\<close> rounds the finite results of the operations of the
  first section. A real is a double, \<open>dbl\<close>, when it is an integer below \<open>2 ^ 53\<close> in
  absolute value times a power of two not below \<open>2 ^ - 1074\<close>. As in the first section, a
  zero stands for both zeros of the format.
\<close>

definition round_even :: "real \<Rightarrow> int" where
  "round_even y =
     (let f = \<lfloor>y\<rfloor>
      in if y - of_int f < 1 / 2 then f
         else if 1 / 2 < y - of_int f then f + 1
         else if even f then f else f + 1)"

definition expo :: "real \<Rightarrow> int" where
  "expo x = max (- 1022) \<lfloor>log 2 \<bar>x\<bar>\<rfloor>"

definition rnd :: "real \<Rightarrow> real" where
  "rnd x =
     (if x = 0 then 0
      else of_int (round_even (x / 2 powi (expo x - 52))) * 2 powi (expo x - 52))"

definition fl :: "real \<Rightarrow> number" where
  "fl x = (if 2 powi 1024 \<le> \<bar>rnd x\<bar> then js_inf (x < 0) else Fin (rnd x))"

fun r64 :: "number \<Rightarrow> number" where
  "r64 (Fin a) = fl a"
| "r64 x = x"

definition dbl :: "real \<Rightarrow> bool" where
  "dbl d \<longleftrightarrow> (\<exists>m p. d = of_int m * 2 powi p \<and> \<bar>m\<bar> < 2 ^ 53 \<and> - 1074 \<le> p)"

section \<open>Binary64 operations\<close>

text \<open>
  The operators \<open>+\<close>, \<open>-\<close>, \<open>*\<close>, \<open>/\<close> and \<open>Math.sqrt\<close> as ECMAScript defines them on
  doubles: the exact result, rounded. \<open>Math.pow(x, 2)\<close> and \<open>x ** 2\<close> are taken to be the
  rounded product \<open>x * x\<close>, which is what the engines compute for the exponent 2.
\<close>

definition js_add64 :: "number \<Rightarrow> number \<Rightarrow> number" where
  "js_add64 x y = r64 (js_add x y)"

definition js_sub64 :: "number \<Rightarrow> number \<Rightarrow> number" where
  "js_sub64 x y = r64 (js_sub x y)"

definition js_mul64 :: "number \<Rightarrow> number \<Rightarrow> number" where
  "js_mul64 x y = r64 (js_mul x y)"

definition js_div64 :: "number \<Rightarrow> number \<Rightarrow> number" where
  "js_div64 x y = r64 (js_div x y)"

definition Math_sqrt64 :: "number \<Rightarrow> number" where
  "Math_sqrt64 x = r64 (Math_sqrt x)"

definition js_square64 :: "number \<Rightarrow> number" where
  "js_square64 x = r64 (js_square x)"

text \<open>A decimal literal of the source text denotes the double nearest to it.\<close>

definition literal :: "real \<Rightarrow> number" where
  "literal x = fl x"

text \<open>
  ECMAScript leaves \<open>Math.sin\<close> and \<open>Math.atan2\<close> implementation-approximated, so the
  mathematical library of the engine is a parameter: \<open>msin\<close> and \<open>matan2\<close> are the functions
  it computes on finite arguments. What ECMAScript fixes is modelled as such:
  \<open>Math.sin(0)\<close> is \<open>0\<close>, \<open>Math.atan2(0, 0)\<close> is \<open>0\<close>, and a \<open>NaN\<close> or an infinite argument of
  \<open>Math.sin\<close> gives \<open>NaN\<close>. \<open>libm_cr\<close> is the correctly rounded library.
\<close>

record libm =
  msin :: "real \<Rightarrow> real"
  matan2 :: "real \<Rightarrow> real \<Rightarrow> real"

fun Math_sin64 :: "libm \<Rightarrow> number \<Rightarrow> number" where
  "Math_sin64 L (Fin a) = Fin (if a = 0 then 0 else msin L a)"
| "Math_sin64 L x = NaN"

fun Math_atan2_64 :: "libm \<Rightarrow> number \<Rightarrow> number \<Rightarrow> number" where
  "Math_atan2_64 L (Fin y) (Fin x) = Fin (if y = 0 \<and> x = 0 then 0 else matan2 L y x)"
| "Math_atan2_64 L y x = r64 (Math_atan2 y x)"

definition libm_cr :: libm where
  "libm_cr = \<lparr>msin = (\<lambda>x. rnd (sin x)), matan2 = (\<lambda>y x. rnd (atan2 y x))\<rparr>"

definition Utils_smoothStep64 :: "number \<Rightarrow> number \<Rightarrow> number \<Rightarrow> number" where
  "Utils_smoothStep64 x edge1 edge2 =
     (let x = Math_max (Fin 0)
                (Math_min (Fin 1) (js_div64 (js_sub64 x edge1) (js_sub64 edge2 edge1)))
      in js_mul64 (js_mul64 x x) (js_sub64 (Fin 3) (js_mul64 (Fin 2) x)))"

section \<open>The canvas element\<close>

text \<open>
  The attributes \<open>width\<close> and \<open>height\<close> of a canvas element are of the Web IDL type
  \<open>unsigned long\<close>, limited to non-negative numbers with a fallback: a number assigned to
  them is truncated towards zero and reduced modulo \<open>2 ^ 32\<close> (\<open>NaN\<close> and the infinities
  become \<open>0\<close>), and a result above \<open>2 ^ 31 - 1\<close> is replaced by the default value, 300
  for the width and 150 for the height.
\<close>

definition ToUint32 :: "number \<Rightarrow> nat" where
  "ToUint32 v =
     (case v of
        Fin a \<Rightarrow> nat ((if a < 0 then - \<lfloor>- a\<rfloor> else \<lfloor>a\<rfloor>) mod 2 ^ 32)
      | _ \<Rightarrow> 0)"

definition canvas_dimension :: "nat \<Rightarrow> number \<Rightarrow> number" where
  "canvas_dimension fallback v =
     (let n = ToUint32 v in Fin (real (if n \<le> 2147483647 then n else fallback)))"

section \<open>TiledSwirl in binary64\<close>

text \<open>
  The methods of \<open>TiledSwirl\<close> that compute with numbers, with every operation rounded
  and with the canvas element keeping its dimensions as integers. The loop counters
  \<open>i\<close> and \<open>j\<close> are exact as long as they are below \<open>2 ^ 53\<close>.
\<close>

definition canvasResize64 :: "TiledSwirl \<Rightarrow> window \<Rightarrow> TiledSwirl" where
  "canvasResize64 this win =
     (case canvas this of
        None \<Rightarrow> this
      | Some cv0 \<Rightarrow>
          let ratio = devicePixelRatio win;
              cv = cv0\<lparr>width := canvas_dimension 300 (js_mul64 (innerWidth win) ratio),
                       height := canvas_dimension 150 (js_mul64 (innerHeight win) ratio),
                       style_width := innerWidth win,
                       style_height := innerHeight win\<rparr>;
              ctx1 = map_option (\<lambda>calls. calls @ [Scale ratio ratio]) (ctx this);
              size1 = js_div64 (js_div64 (Math_min (width cv) (height cv)) (density this)) ratio;
              rows1 = Math_ceil (js_div64 (js_div64 (height cv) size1) ratio);
              cols1 = Math_ceil (js_div64 (js_div64 (width cv) size1) ratio);
              halfWidth = js_div64 (js_div64 (width cv) (Fin 2)) ratio;
              halfHeight = js_div64 (js_div64 (height cv) (Fin 2)) ratio
          in this\<lparr>canvas := Some cv, ctx := ctx1, size_tile := size1, rows := rows1,
                   cols := cols1,
                   distanceMax :=
                     Math_sqrt64 (js_add64 (js_square64 halfWidth) (js_square64 halfHeight))\<rparr>)"

definition tileSize64 ::
  "libm \<Rightarrow> TiledSwirl \<Rightarrow> number \<Rightarrow> number \<Rightarrow> nat \<Rightarrow> nat \<Rightarrow> number" where
  "tileSize64 L this cx cy i j =
     (let x = js_mul64 (Fin (real i)) (size_tile this);
          y = js_mul64 (Fin (real j)) (size_tile this);
          legHorizontal =
            js_square64 (js_sub64 (js_add64 x (js_div64 (size_tile this) (Fin 2))) cx);
          legVertical =
            js_square64 (js_sub64 (js_add64 y (js_div64 (size_tile this) (Fin 2))) cy);
          dist = Math_sqrt64 (js_add64 legHorizontal legVertical);
          distNormalized = js_div64 dist (distanceMax this);
          angleX = js_sub64 (js_add64 x (js_div64 (size_tile this) (Fin 2))) cx;
          angleY = js_sub64 (js_add64 y (js_div64 (size_tile this) (Fin 2))) cy;
          angle = Math_atan2_64 L angleY angleX;
          rippleFactor =
            js_mul64 (tightness this) (js_add64 (Fin 1) (js_mul64 distNormalized (ripple this)));
          wave = Math_sin64 L
                   (js_sub64 (js_add64 (js_mul64 distNormalized rippleFactor) angle) (time this));
          waveNormalized = js_div64 (js_add64 wave (Fin 1)) (Fin 2);
          edge1 = js_sub64 (literal 0.5) (edge this);
          edge2 = js_add64 (literal 0.5) (edge this);
          waveEdged = Utils_smoothStep64 waveNormalized edge1 edge2
      in js_add64 (js_mul64 (size_tile this) (literal 0.2))
           (js_mul64 (js_mul64 (size_tile this) (literal 0.8)) waveEdged))"

definition draw_cell64 ::
  "libm \<Rightarrow> TiledSwirl \<Rightarrow> number \<Rightarrow> number \<Rightarrow> nat \<Rightarrow> nat \<Rightarrow> call list
   \<Rightarrow> call list completion option" where
  "draw_cell64 L this cx cy i j calls =
     (let x = js_mul64 (Fin (real i)) (size_tile this);
          y = js_mul64 (Fin (real j)) (size_tile this);
          tileSize1 = tileSize64 L this cx cy i j;
          tileX = js_add64 x (js_div64 (js_sub64 (size_tile this) tileSize1) (Fin 2));
          tileY = js_add64 y (js_div64 (js_sub64 (size_tile this) tileSize1) (Fin 2))
      in case js_get (colors this) i of
           None \<Rightarrow> Some (Throw TypeError calls)
         | Some row \<Rightarrow>
             let fillStyle = (case js_get row j of
                                None \<Rightarrow> blankColor this
                              | Some c \<Rightarrow> if c = [] then blankColor this else c)
             in Some (Normal (calls @ [FillStyle fillStyle, FillRect tileX tileY tileSize1 tileSize1])))"

definition centerX64_of :: "canvas \<Rightarrow> window \<Rightarrow> number" where
  "centerX64_of cv win = js_div64 (js_div64 (width cv) (devicePixelRatio win)) (Fin 2)"

definition centerY64_of :: "canvas \<Rightarrow> window \<Rightarrow> number" where
  "centerY64_of cv win = js_div64 (js_div64 (height cv) (devicePixelRatio win)) (Fin 2)"

definition draw64 :: "libm \<Rightarrow> TiledSwirl \<Rightarrow> window \<Rightarrow> TiledSwirl completion option" where
  "draw64 L this win =
     (case (canvas this, ctx this) of
        (Some cv, Some calls) \<Rightarrow>
          let cx = centerX64_of cv win;
              cy = centerY64_of cv win
          in (case for_loop (cols this)
                     (\<lambda>i. for_loop (rows this) (draw_cell64 L this cx cy i) 0) 0 calls of
                None \<Rightarrow> None
              | Some (Normal calls') \<Rightarrow> Some (Normal (this\<lparr>ctx := Some calls'\<rparr>))
              | Some (Throw e calls') \<Rightarrow> Some (Throw e (this\<lparr>ctx := Some calls'\<rparr>)))
      | _ \<Rightarrow> Some (Normal this))"

definition animate64 :: "libm \<Rightarrow> TiledSwirl \<Rightarrow> window \<Rightarrow> TiledSwirl completion option" where
  "animate64 L this win =
     (case (canvas this, ctx this) of
        (Some cv, Some calls) \<Rightarrow>
          draw64 L (this\<lparr>ctx := Some (calls @ [ClearRect (Fin 0) (Fin 0) (width cv) (height cv)]),
                        time := js_add64 (time this) (speed this)\<rparr>) win
      | _ \<Rightarrow> Some (Normal this))"

text \<open>
  \<open>computeGeometry\<close> as the specification words it, in binary64 arithmetic.
\<close>

definition computeGeometry64 :: "number \<Rightarrow> number \<Rightarrow> number \<Rightarrow> number \<Rightarrow> Grid" where
  "computeGeometry64 viewportWidth viewportHeight pixelRatio density1 =
     (let tileEdge1 =
            js_div64 (js_div64 (Math_min viewportWidth viewportHeight) density1) pixelRatio
      in \<lparr>tileEdge = tileEdge1,
          grid_rows = Math_ceil (js_div64 (js_div64 viewportHeight tileEdge1) pixelRatio),
          grid_cols = Math_ceil (js_div64 (js_div64 viewportWidth tileEdge1) pixelRatio),
          centerX = js_div64 (js_div64 viewportWidth pixelRatio) (Fin 2),
          centerY = js_div64 (js_div64 viewportHeight pixelRatio) (Fin 2),
          maxDistance =
            Math_sqrt64
              (js_add64 (js_square64 (js_div64 (js_div64 viewportWidth pixelRatio) (Fin 2)))
                        (js_square64 (js_div64 (js_div64 viewportHeight pixelRatio) (Fin 2))))\<rparr>)"

definition window_600x600 :: window where
  "window_600x600 =
     \<lparr>innerWidth = Fin 600, innerHeight = Fin 600, devicePixelRatio = Fin 1,
      themeQuery_matches = False\<rparr>"

text \<open>
  The state of a new sketch in the viewport of 20 by 20 just before \<open>colorsInit\<close>, in
  binary64 arithmetic (a 32 by 32 grid), and that state with the colour table that the
  zero source gives.
\<close>

definition swirl64_before_colors :: TiledSwirl where
  "swirl64_before_colors =
     checkDarkTheme (canvasResize64 (TiledSwirl_fields canvas0 (Some [])) window_20x20)
       window_20x20"

definition swirl64_32x32 :: TiledSwirl where
  "swirl64_32x32 =
     swirl64_before_colors\<lparr>colors := replicate 32 (Some (replicate 32 (Some [])))\<rparr>"

section \<open>Arithmetic on finite numbers\<close>

lemma Math_min_Fin: "Math_min (Fin a) (Fin b) = Fin (min a b)"
  by (simp add: min_def)



lemma js_div_Fin: "b \<noteq> 0 \<Longrightarrow> js_div (Fin a) (Fin b) = Fin (a / b)"
  by simp





section \<open>Loops\<close>

lemma for_loop_skip:
  "\<not> js_lt (Fin (real i)) bound \<Longrightarrow> for_loop bound body i acc = Some (Normal acc)"
  by (subst for_loop.simps) simp

lemma js_lt_nat_ceiling: "js_lt (Fin (real i)) (Fin c) \<longleftrightarrow> i < nat \<lceil>c\<rceil>"
proof -
  have "real i < c \<longleftrightarrow> int i < \<lceil>c\<rceil>"
    by (simp add: less_ceiling_iff)
  also have "\<dots> \<longleftrightarrow> i < nat \<lceil>c\<rceil>"
    by (simp add: zless_nat_eq_int_zless)
  finally show ?thesis by simp
qed

lemma for_loop_total:
  assumes "P i acc"
    and "\<And>i acc. P i acc \<Longrightarrow> i < nat \<lceil>c\<rceil> \<Longrightarrow> \<exists>acc'. body i acc = Some (Normal acc') \<and> P (Suc i) acc'"
  shows "\<exists>acc'. for_loop (Fin c) body i acc = Some (Normal acc') \<and> P (max i (nat \<lceil>c\<rceil>)) acc'"
  using assms(1)
proof (induction "nat \<lceil>c\<rceil> - i" arbitrary: i acc)
  case 0
  then have "\<not> js_lt (Fin (real i)) (Fin c)" and "max i (nat \<lceil>c\<rceil>) = i"
    by (simp_all add: js_lt_nat_ceiling)
  then show ?case
    using 0(2) by (simp add: for_loop_skip)
next
  case (Suc n)
  then have lt: "i < nat \<lceil>c\<rceil>" by simp
  from assms(2) [OF Suc(3) lt] obtain acc1 where
    b: "body i acc = Some (Normal acc1)" and p: "P (Suc i) acc1" by blast
  have "n = nat \<lceil>c\<rceil> - Suc i" using Suc(2) by simp
  from Suc(1) [OF this p] obtain acc' where
    r: "for_loop (Fin c) body (Suc i) acc1 = Some (Normal acc')" and q: "P (max (Suc i) (nat \<lceil>c\<rceil>)) acc'"
    by blast
  have lt': "js_lt (Fin (real i)) (Fin c)"
    using lt by (simp only: js_lt_nat_ceiling)
  have "for_loop (Fin c) body i acc = Some (Normal acc')"
    by (subst for_loop.simps) (simp only: lt' if_True b r option.case completion.case)
  moreover have "max (Suc i) (nat \<lceil>c\<rceil>) = max i (nat \<lceil>c\<rceil>)"
    using lt by simp
  ultimately show ?case using q by simp
qed

lemma for_loop_partial:
  assumes "for_loop bound body i acc = Some r"
    and "P i acc"
    and "\<And>i a a'. P i a \<Longrightarrow> js_lt (Fin (real i)) bound \<Longrightarrow> body i a = Some (Normal a') \<Longrightarrow> P (Suc i) a'"
    and "\<And>i a e a'. P i a \<Longrightarrow> js_lt (Fin (real i)) bound \<Longrightarrow> body i a = Some (Throw e a') \<Longrightarrow> Q (Throw e a')"
    and "\<And>i a. P i a \<Longrightarrow> \<not> js_lt (Fin (real i)) bound \<Longrightarrow> Q (Normal a)"
  shows "Q r"
proof -
  have "bound = bound \<longrightarrow> body = body \<longrightarrow> P i acc \<longrightarrow> Q r"
  proof (rule for_loop.raw_induct
      [where P = "\<lambda>bound' body' i acc r. bound' = bound \<longrightarrow> body' = body \<longrightarrow> P i acc \<longrightarrow> Q r",
        OF _ assms(1)])
    fix loop bound' and body' :: "nat \<Rightarrow> 'a \<Rightarrow> 'a completion option" and i acc r
    assume ih: "\<And>bound' body' i acc r. loop bound' body' i acc = Some r \<Longrightarrow>
        bound' = bound \<longrightarrow> body' = body \<longrightarrow> P i acc \<longrightarrow> Q r"
      and eq: "(if js_lt (Fin (real i)) bound'
          then case body' i acc of None \<Rightarrow> None
            | Some (Normal acc') \<Rightarrow> loop bound' body' (Suc i) acc'
            | Some (Throw e acc') \<Rightarrow> Some (Throw e acc')
          else Some (Normal acc)) = Some r"
    show "bound' = bound \<longrightarrow> body' = body \<longrightarrow> P i acc \<longrightarrow> Q r"
    proof (intro impI)
      assume bb: "bound' = bound" "body' = body" and p: "P i acc"
      show "Q r"
      proof (cases "js_lt (Fin (real i)) bound")
        case False
        then have "r = Normal acc" using eq unfolding bb by simp
        then show ?thesis using assms(5) [OF p False] by simp
      next
        case True
        then have c: "(case body i acc of None \<Rightarrow> None
            | Some (Normal acc') \<Rightarrow> loop bound body (Suc i) acc'
            | Some (Throw e acc') \<Rightarrow> Some (Throw e acc')) = Some r"
          using eq True unfolding bb by simp
        then obtain res where b: "body i acc = Some res"
          by (cases "body i acc") simp_all
        show ?thesis
        proof (cases res)
          case (Normal a')
          then have "loop bound body (Suc i) a' = Some r" using c b by simp
          moreover have "P (Suc i) a'" using assms(3) [OF p True] b Normal by simp
          ultimately show ?thesis using ih by blast
        next
          case (Throw e a')
          then have "r = Throw e a'" using c b by simp
          then show ?thesis using assms(4) [OF p True] b Throw by simp
        qed
      qed
    qed
  qed
  then show ?thesis using assms(2) by blast
qed

text \<open>With the bound \<open>Infinity\<close> and a body that never throws, the loop does not return.\<close>

lemma for_loop_Infinity:
  assumes "P i acc"
    and "\<And>i a. P i a \<Longrightarrow> \<exists>a'. body i a = Some (Normal a') \<and> P (Suc i) a'"
  shows "for_loop PInf body i acc = None"
proof (cases "for_loop PInf body i acc")
  case None
  then show ?thesis .
next
  case (Some r)
  have False
  proof (rule for_loop_partial [OF Some, where P = P and Q = "\<lambda>r. False"])
    show "P i acc" by (rule assms(1))
  next
    fix i a a'
    assume "P i a" and "body i a = Some (Normal a')"
    then show "P (Suc i) a'" using assms(2) [of i a] by auto
  next
    fix i a e a'
    assume "P i a" and "body i a = Some (Throw e a')"
    then show False using assms(2) [of i a] by auto
  next
    fix i a
    assume "\<not> js_lt (Fin (real i)) PInf"
    then show False by simp
  qed
  then show ?thesis ..
qed

section \<open>Geometry\<close>

lemma sqrt_250000: "sqrt 250000 = 500"
  by (rule real_sqrt_unique) simp_all

text \<open>
  Claim C9. \<open>canvasResize\<close> leaves the time, the colours, the theme flag and the six
  configuration fields as they are; it writes the canvas, the call on the rendering
  context and the four geometry fields only.
\<close>

theorem canvasResize_frame:
  "time (canvasResize this win) = time this \<and>
   colors (canvasResize this win) = colors this \<and>
   isDark (canvasResize this win) = isDark this \<and>
   density (canvasResize this win) = density this \<and>
   edge (canvasResize this win) = edge this \<and>
   ripple (canvasResize this win) = ripple this \<and>
   speed (canvasResize this win) = speed this \<and>
   tightness (canvasResize this win) = tightness this \<and>
   palette (canvasResize this win) = palette this \<and>
   (\<exists>cv ctx1 size1 rows1 cols1 distanceMax1.
      canvasResize this win =
        this\<lparr>canvas := cv, ctx := ctx1, size_tile := size1, rows := rows1, cols := cols1,
             distanceMax := distanceMax1\<rparr>)"
proof -
  have frame: "\<exists>cv ctx1 size1 rows1 cols1 distanceMax1.
      canvasResize this win =
        this\<lparr>canvas := cv, ctx := ctx1, size_tile := size1, rows := rows1, cols := cols1,
             distanceMax := distanceMax1\<rparr>"
  proof (cases "canvas this")
    case None
    have "this = this\<lparr>canvas := canvas this, ctx := ctx this, size_tile := size_tile this,
        rows := rows this, cols := cols this, distanceMax := distanceMax this\<rparr>"
      by simp
    with None show ?thesis
      unfolding canvasResize_def by (simp only: option.case) blast
  next
    case (Some cv0)
    then show ?thesis
      unfolding canvasResize_def Let_def by (simp only: option.case) blast
  qed
  then obtain cv ctx1 size1 rows1 cols1 distanceMax1 where
    eq: "canvasResize this win =
        this\<lparr>canvas := cv, ctx := ctx1, size_tile := size1, rows := rows1, cols := cols1,
             distanceMax := distanceMax1\<rparr>"
    by blast
  show ?thesis
    using frame by (simp add: eq)
qed

section \<open>The size of a tile\<close>




section \<open>Configurations the specification calls invalid\<close>






section \<open>The colour table\<close>

lemma Utils_random_range: "\<exists>r. Utils_random u = Fin r \<and> 0 \<le> r \<and> r < 1"
proof -
  have "unat u < 2 ^ 32"
    using unsigned_less [of u] by simp
  then have "real (unat u) < 2 ^ 32"
    by (metis of_nat_less_iff of_nat_numeral of_nat_power)
  then have "real (unat u) / 2 ^ 32 < 1"
    by simp
  moreover have "0 \<le> real (unat u) / 2 ^ 32"
    by (rule divide_nonneg_nonneg) (rule of_nat_0_le_iff, simp)
  moreover have "Utils_random u = Fin (real (unat u) / 2 ^ 32)"
    unfolding Utils_random_def by (rule js_div_Fin) simp
  ultimately show ?thesis
    by blast
qed

lemma palette_index:
  assumes "p \<noteq> []"
  shows "\<exists>k<length p. Math_floor (js_mul (Utils_random u) (Fin (real (length p)))) = Fin (real k) \<and>
           palette_at p (Fin (real k)) = Some (p ! k)"
proof -
  obtain r where r: "Utils_random u = Fin r" "0 \<le> r" "r < 1"
    using Utils_random_range by blast
  let ?n = "real (length p)"
  have n: "0 < ?n" using assms by simp
  have lo: "0 \<le> r * ?n" using r(2) by simp
  have hi: "r * ?n < ?n" using r(3) n by simp
  define k where "k = nat \<lfloor>r * ?n\<rfloor>"
  have f0: "0 \<le> \<lfloor>r * ?n\<rfloor>" using lo by simp
  have "\<lfloor>r * ?n\<rfloor> < int (length p)"
    using hi by (simp add: floor_less_iff)
  then have kl: "k < length p" using f0 by (simp add: k_def nat_less_iff)
  have kf: "real k = of_int \<lfloor>r * ?n\<rfloor>" using f0 by (simp add: k_def)
  have "Math_floor (js_mul (Utils_random u) (Fin ?n)) = Fin (real k)"
    by (simp add: r(1) kf)
  moreover have "palette_at p (Fin (real k)) = Some (p ! k)"
    using kl by (simp add: palette_at_def)
  ultimately show ?thesis using kl by blast
qed

lemma cell_value_palette:
  assumes "palette this \<noteq> []"
  shows "palette_entry (palette this) (cell_value this entropy k)"
proof -
  obtain n where "n < length (palette this)"
    "cell_value this entropy k = Some (palette this ! n)"
    using palette_index [OF assms, of "entropy k"] by (auto simp: cell_value_def)
  then show ?thesis by (simp add: palette_entry_def)
qed

lemma colorsInit_cell_step:
  assumes "length cs = Suc i" and "cs ! i = Some row" and "length row = j"
  shows "colorsInit_cell this entropy i j (cs, k) =
           Some (Normal (cs[i := Some (row @ [cell_value this entropy k])], Suc k))"
proof -
  have g: "js_get cs i = Some row"
    using assms(1,2) by (simp add: js_get_def)
  have s: "js_set row j v = row @ [v]" for v
    using assms(3) by (simp add: js_set_def)
  have s2: "js_set cs i v = cs[i := v]" for v
    using assms(1) by (simp add: js_set_def)
  show ?thesis
    by (simp add: colorsInit_cell_def Let_def g s s2 cell_value_def)
qed

lemma column_inv_step:
  assumes "\<And>k. E (cell_value this entropy k)" and "column_inv E cs0 i j st"
  shows "\<exists>st'. colorsInit_cell this entropy i j st = Some (Normal st') \<and> column_inv E cs0 i (Suc j) st'"
proof -
  obtain cs k where st: "st = (cs, k)" by (cases st)
  from assms(2) obtain row where c: "length cs = Suc i" "take i cs = cs0" "cs ! i = Some row"
    "length row = j" "list_all E row"
    by (auto simp: column_inv_def st row_all_def row_length_def split: option.splits)
  note v = colorsInit_cell_step [OF c(1) c(3) c(4), of this entropy k]
  have "column_inv E cs0 i (Suc j) (cs[i := Some (row @ [cell_value this entropy k])], Suc k)"
    using c assms(1) by (simp add: column_inv_def row_all_def row_length_def)
  then show ?thesis using v st by blast
qed

lemma column_inv_init:
  assumes "length cs = i"
  shows "column_inv E cs i 0 (js_set cs i (Some []), k)"
  unfolding assms [symmetric] by (simp add: column_inv_def js_set_def row_all_def row_length_def)

lemma column_inv_final:
  assumes "column_inv E cs0 i n (cs, k)" and "length cs0 = i"
  shows "length cs = Suc i"
    and "list_all (row_all E) cs0 \<Longrightarrow> list_all (row_all E) cs"
    and "list_all (row_length n) cs0 \<Longrightarrow> list_all (row_length n) cs"
proof -
  have l: "length cs = Suc i" and t: "take i cs = cs0" and r: "row_all E (cs ! i)"
    "row_length n (cs ! i)"
    using assms(1) by (simp_all add: column_inv_def)
  have "cs = take i cs @ [cs ! i]"
    using l by (metis lessI take_Suc_conv_app_nth take_all order_refl)
  then have eq: "cs = cs0 @ [cs ! i]" using t by simp
  show "length cs = Suc i" by (rule l)
  show "list_all (row_all E) cs" if "list_all (row_all E) cs0"
    using that r(1) by (subst eq) simp
  show "list_all (row_length n) cs" if "list_all (row_length n) cs0"
    using that r(2) by (subst eq) simp
qed

lemma colorsInit_column_total:
  assumes "\<And>k. E (cell_value this entropy k)" and "rows this = Fin R" and "length cs = i"
  shows "\<exists>cs' k'. colorsInit_column this entropy i (cs, k) = Some (Normal (cs', k')) \<and>
           length cs' = Suc i \<and>
           (list_all (row_all E) cs \<longrightarrow> list_all (row_all E) cs') \<and>
           (list_all (row_length (nat \<lceil>R\<rceil>)) cs \<longrightarrow> list_all (row_length (nat \<lceil>R\<rceil>)) cs')"
proof -
  have "\<exists>acc'. for_loop (Fin R) (colorsInit_cell this entropy i) 0 (js_set cs i (Some []), k)
        = Some (Normal acc') \<and> column_inv E cs i (max 0 (nat \<lceil>R\<rceil>)) acc'"
  proof (rule for_loop_total [where P = "column_inv E cs i"])
    show "column_inv E cs i 0 (js_set cs i (Some []), k)"
      by (rule column_inv_init [OF assms(3)])
    show "\<exists>acc'. colorsInit_cell this entropy i j acc = Some (Normal acc') \<and>
        column_inv E cs i (Suc j) acc'"
      if "column_inv E cs i j acc" for j acc
      using that by (rule column_inv_step [where E = E and this = this and entropy = entropy, OF assms(1)])
  qed
  then obtain st' where st': "for_loop (Fin R) (colorsInit_cell this entropy i) 0 (js_set cs i (Some []), k)
      = Some (Normal st')" "column_inv E cs i (nat \<lceil>R\<rceil>) st'"
    by auto
  obtain cs' k' where p: "st' = (cs', k')" by (cases st')
  show ?thesis
    using st'(1) column_inv_final [OF st'(2) [unfolded p] assms(3)]
    by (simp add: colorsInit_column_def assms(2) p)
qed

lemma colorsInit_column_partial:
  assumes "\<And>k. E (cell_value this entropy k)" and "length cs = i" and "list_all (row_all E) cs"
    and "colorsInit_column this entropy i (cs, k) = Some r"
  shows "\<exists>cs' k'. r = Normal (cs', k') \<and> length cs' = Suc i \<and> list_all (row_all E) cs'"
proof -
  have loop: "for_loop (rows this) (colorsInit_cell this entropy i) 0 (js_set cs i (Some []), k) = Some r"
    using assms(4) by (simp add: colorsInit_column_def)
  show ?thesis
  proof (rule for_loop_partial [OF loop, where P = "column_inv E cs i"])
    show "column_inv E cs i 0 (js_set cs i (Some []), k)"
      by (rule column_inv_init [OF assms(2)])
  next
    fix j a a'
    assume "column_inv E cs i j a" and "colorsInit_cell this entropy i j a = Some (Normal a')"
    then show "column_inv E cs i (Suc j) a'"
      using column_inv_step [where E = E and this = this and entropy = entropy, OF assms(1), where ?cs0.0 = cs and i = i and j = j and st = a] by auto
  next
    fix j a e a'
    assume "column_inv E cs i j a" and "colorsInit_cell this entropy i j a = Some (Throw e a')"
    then show "\<exists>cs' k'. Throw e a' = Normal (cs', k') \<and> length cs' = Suc i \<and> list_all (row_all E) cs'"
      using column_inv_step [where E = E and this = this and entropy = entropy, OF assms(1), where ?cs0.0 = cs and i = i and j = j and st = a] by auto
  next
    fix j a
    assume inv: "column_inv E cs i j a"
    obtain cs' k' where a: "a = (cs', k')" by (cases a)
    show "\<exists>cs' k'. Normal a = Normal (cs', k') \<and> length cs' = Suc i \<and> list_all (row_all E) cs'"
      using column_inv_final(1,2) [OF inv [unfolded a] assms(2)] assms(3) a by blast
  qed
qed

lemma colorsInit_partial:
  assumes "\<And>k. E (cell_value this entropy k)" and "colorsInit this entropy = Some r"
  shows "\<exists>cs. r = Normal (this\<lparr>colors := cs\<rparr>) \<and> list_all (row_all E) cs"
proof -
  obtain r' where loop: "for_loop (cols this) (colorsInit_column this entropy) 0 ([], 0) = Some r'"
    using assms(2) by (auto simp: colorsInit_def split: option.splits)
  have "\<exists>cs k. r' = Normal (cs, k) \<and> list_all (row_all E) cs"
  proof (rule for_loop_partial [OF loop, where P = "table_inv E"])
    show "table_inv E 0 ([], 0)"
      by (simp add: table_inv_def)
  next
    fix i a a'
    assume inv: "table_inv E i a" and b: "colorsInit_column this entropy i a = Some (Normal a')"
    obtain cs k where a: "a = (cs, k)" by (cases a)
    show "table_inv E (Suc i) a'"
      using colorsInit_column_partial [where E = E and this = this and entropy = entropy, OF assms(1) _ _ b [unfolded a]] inv
      by (auto simp: table_inv_def a)
  next
    fix i a e a'
    assume inv: "table_inv E i a" and b: "colorsInit_column this entropy i a = Some (Throw e a')"
    obtain cs k where a: "a = (cs, k)" by (cases a)
    show "\<exists>cs k. Throw e a' = Normal (cs, k) \<and> list_all (row_all E) cs"
      using colorsInit_column_partial [where E = E and this = this and entropy = entropy, OF assms(1) _ _ b [unfolded a]] inv
      by (auto simp: table_inv_def a)
  next
    fix i a
    assume "table_inv E i a"
    then show "\<exists>cs k. Normal a = Normal (cs, k) \<and> list_all (row_all E) cs"
      by (cases a) (simp add: table_inv_def)
  qed
  then show ?thesis
    using assms(2) loop by (auto simp: colorsInit_def)
qed

lemma colorsInit_total:
  assumes "\<And>k. E (cell_value this entropy k)" and "cols this = Fin C" and "rows this = Fin R"
  shows "\<exists>cs. colorsInit this entropy = Some (Normal (this\<lparr>colors := cs\<rparr>)) \<and>
           length cs = nat \<lceil>C\<rceil> \<and> list_all (row_all E) cs \<and>
           list_all (row_length (nat \<lceil>R\<rceil>)) cs"
proof -
  have step: "\<exists>acc'. colorsInit_column this entropy i acc = Some (Normal acc') \<and>
      grid_inv E (nat \<lceil>R\<rceil>) (Suc i) acc'"
    if "grid_inv E (nat \<lceil>R\<rceil>) i acc" for i acc
  proof -
    obtain cs k where a: "acc = (cs, k)" by (cases acc)
    have l: "length cs = i" using that by (simp add: grid_inv_def a)
    from colorsInit_column_total [where E = E and this = this and entropy = entropy, OF assms(1) assms(3) l, where k = k] that
    show ?thesis by (auto simp: grid_inv_def a)
  qed
  have init: "grid_inv E (nat \<lceil>R\<rceil>) 0 ([], 0)"
    by (simp add: grid_inv_def)
  have "\<exists>acc'. for_loop (Fin C) (colorsInit_column this entropy) 0 ([], 0) = Some (Normal acc') \<and>
      grid_inv E (nat \<lceil>R\<rceil>) (max 0 (nat \<lceil>C\<rceil>)) acc'"
    by (rule for_loop_total [where P = "grid_inv E (nat \<lceil>R\<rceil>)", OF init]) (rule step)
  then obtain acc' where r: "for_loop (Fin C) (colorsInit_column this entropy) 0 ([], 0) = Some (Normal acc')"
    "grid_inv E (nat \<lceil>R\<rceil>) (nat \<lceil>C\<rceil>) acc'"
    by auto
  obtain cs k where a: "acc' = (cs, k)" by (cases acc')
  show ?thesis
    using r by (auto simp: colorsInit_def assms(2) a grid_inv_def)
qed

text \<open>
  With \<open>cols\<close> infinite (a viewport of positive width and height 0 gives a tile edge of 0)
  \<open>colorsInit\<close> does not return.
\<close>

lemma colorsInit_never_returns:
  assumes "cols this = PInf" and "rows this = Fin R"
  shows "colorsInit this entropy = None"
proof -
  have "for_loop PInf (colorsInit_column this entropy) 0 ([], 0) = None"
  proof (rule for_loop_Infinity [where P = "\<lambda>i st. length (fst st) = i"])
    show "length (fst (([], 0) :: string array array \<times> nat)) = 0" by simp
  next
    fix i and a :: "string array array \<times> nat"
    assume l: "length (fst a) = i"
    obtain cs k where a: "a = (cs, k)" by (cases a)
    from colorsInit_column_total [where E = "\<lambda>v. True" and this = this and entropy = entropy
        and cs = cs and i = i and k = k and R = R] assms(2) l
    show "\<exists>a'. colorsInit_column this entropy i a = Some (Normal a') \<and> length (fst a') = Suc i"
      by (auto simp: a)
  qed
  then show ?thesis
    by (simp add: colorsInit_def assms(1))
qed

lemma swirl_before_colors_fields:
  "cols swirl_before_colors = Fin 32" "rows swirl_before_colors = Fin 32"
  "palette swirl_before_colors = ['''', ''hsl(343, 90%, 50%)'', ''hsl(43, 90%, 50%)'', ''hsl(223, 90%, 50%)'']"
  "canvas swirl_before_colors = Some (canvas0\<lparr>width := Fin 20, height := Fin 20, style_width := Fin 20, style_height := Fin 20\<rparr>)"
  "density swirl_before_colors = Fin 32"
  by (simp_all add: swirl_before_colors_def checkDarkTheme_def canvasResize_def Let_def
      TiledSwirl_fields_def window_20x20_def Math_min_Fin)

text \<open>
  Claim C10. \<open>Utils.random\<close> gives a number in \<open>[0, 1)\<close>; for a non-empty palette the
  floored product with the palette length is an index \<open>k\<close> below the length, where the
  lookup gives the \<open>k\<close>-th palette entry. Whenever \<open>colorsInit\<close> returns it returns
  normally, with a table whose every row is defined and whose every entry is a colour of
  the palette; and it does return when \<open>cols\<close> and \<open>rows\<close> are finite, with a table of
  \<open>ceil(cols)\<close> rows of \<open>ceil(rows)\<close> entries.
\<close>

theorem colorsInit_palette:
  assumes "palette this \<noteq> []"
  shows "(\<exists>r. Utils_random u = Fin r \<and> 0 \<le> r \<and> r < 1) \<and>
         (\<exists>k<length (palette this).
            Math_floor (js_mul (Utils_random u) (Fin (real (length (palette this))))) = Fin (real k) \<and>
            palette_at (palette this) (Fin (real k)) = Some (palette this ! k)) \<and>
         (\<forall>r. colorsInit this entropy = Some r \<longrightarrow>
            (\<exists>cs. r = Normal (this\<lparr>colors := cs\<rparr>) \<and>
               list_all (row_all (palette_entry (palette this))) cs)) \<and>
         (\<forall>C R. cols this = Fin C \<and> rows this = Fin R \<longrightarrow>
            (\<exists>cs. colorsInit this entropy = Some (Normal (this\<lparr>colors := cs\<rparr>)) \<and>
               length cs = nat \<lceil>C\<rceil> \<and> list_all (row_length (nat \<lceil>R\<rceil>)) cs))"
proof -
  have E: "palette_entry (palette this) (cell_value this entropy k)" for k
    by (rule cell_value_palette [OF assms])
  have "\<exists>cs. r = Normal (this\<lparr>colors := cs\<rparr>) \<and> list_all (row_all (palette_entry (palette this))) cs"
    if "colorsInit this entropy = Some r" for r
    by (rule colorsInit_partial [where E = "palette_entry (palette this)" and this = this and entropy = entropy, OF E that])
  moreover have "\<exists>cs. colorsInit this entropy = Some (Normal (this\<lparr>colors := cs\<rparr>)) \<and>
      length cs = nat \<lceil>C\<rceil> \<and> list_all (row_length (nat \<lceil>R\<rceil>)) cs"
    if "cols this = Fin C \<and> rows this = Fin R" for C R
    using colorsInit_total [where E = "palette_entry (palette this)" and this = this and entropy = entropy, OF E, of C R] that by blast
  ultimately show ?thesis
    using Utils_random_range [of u] palette_index [OF assms, of u] by blast
qed

theorem colorsInit_palette_witness:
  "(\<exists>k<length (palette swirl_before_colors).
      Math_floor (js_mul (Utils_random 7) (Fin (real (length (palette swirl_before_colors))))) = Fin (real k) \<and>
      palette_at (palette swirl_before_colors) (Fin (real k)) = Some (palette swirl_before_colors ! k)) \<and>
   (\<exists>cs. colorsInit swirl_before_colors entropy_zero = Some (Normal (swirl_before_colors\<lparr>colors := cs\<rparr>)) \<and>
      length cs = 32 \<and> list_all (row_length 32) cs \<and>
      list_all (row_all (palette_entry (palette swirl_before_colors))) cs)"
proof -
  have p: "palette swirl_before_colors \<noteq> []"
    by (simp add: swirl_before_colors_fields)
  note t = colorsInit_palette [OF p, of 7 entropy_zero]
  from t obtain cs where cs: "colorsInit swirl_before_colors entropy_zero =
      Some (Normal (swirl_before_colors\<lparr>colors := cs\<rparr>))" "length cs = nat \<lceil>32 :: real\<rceil>"
      "list_all (row_length (nat \<lceil>32 :: real\<rceil>)) cs"
    using swirl_before_colors_fields(1,2) by blast
  from t cs(1) obtain cs' where "Normal (swirl_before_colors\<lparr>colors := cs\<rparr>) = Normal (swirl_before_colors\<lparr>colors := cs'\<rparr>)"
    "list_all (row_all (palette_entry (palette swirl_before_colors))) cs'"
    by blast
  moreover from this have "cs' = cs"
    by (metis completion.inject(1) TiledSwirl.select_convs(13) TiledSwirl.surjective TiledSwirl.update_convs(13))
  ultimately have "list_all (row_all (palette_entry (palette swirl_before_colors))) cs"
    by simp
  then show ?thesis
    using t cs by auto
qed

section \<open>Colours and resizing\<close>

lemma constant_row:
  assumes "row_all (\<lambda>v. v = x) r" and "row_length n r"
  shows "r = Some (replicate n x)"
proof -
  from assms obtain row where r: "r = Some row" "list_all (\<lambda>v. v = x) row" "length row = n"
    by (auto simp: row_all_def row_length_def split: option.splits)
  have "row = replicate n x"
    using r(2,3) by (intro replicate_eqI) (simp_all add: list_all_iff)
  then show ?thesis using r(1) by simp
qed

lemma constant_table:
  assumes "length cs = m" and "list_all (row_all (\<lambda>v. v = x)) cs" and "list_all (row_length n) cs"
  shows "cs = replicate m (Some (replicate n x))"
  using assms by (intro replicate_eqI) (auto simp: list_all_iff intro: constant_row)

section \<open>Rounding to an integer\<close>

lemma round_even_cases:
  "round_even y = \<lfloor>y\<rfloor> \<or> round_even y = \<lfloor>y\<rfloor> + 1"
  by (simp add: round_even_def Let_def)

lemma round_even_error: "\<bar>of_int (round_even y) - y\<bar> \<le> 1 / 2"
proof -
  define f where "f = \<lfloor>y\<rfloor>"
  have lo: "of_int f \<le> y" and hi: "y < of_int f + 1"
    unfolding f_def by linarith+
  consider "y - of_int f < 1 / 2" | "1 / 2 < y - of_int f" | "y - of_int f = 1 / 2"
    by linarith
  then show ?thesis
  proof cases
    case 1
    then have "round_even y = f" by (simp add: round_even_def Let_def f_def)
    then show ?thesis using 1 lo by simp
  next
    case 2
    then have "round_even y = f + 1" by (simp add: round_even_def Let_def f_def)
    then show ?thesis using 2 hi by simp
  next
    case 3
    then have "round_even y = f \<or> round_even y = f + 1"
      using round_even_cases [of y] by (simp add: f_def)
    then show ?thesis using 3 by auto
  qed
qed

lemma round_even_of_int [simp]: "round_even (of_int n) = n"
  by (simp add: round_even_def)

lemma round_even_le:
  assumes "y \<le> of_int n"
  shows "round_even y \<le> n"
proof (cases "y = of_int n")
  case True
  then show ?thesis by simp
next
  case False
  then have "y < of_int n" using assms by simp
  then have "\<lfloor>y\<rfloor> < n" by (simp add: floor_less_iff)
  then show ?thesis using round_even_cases [of y] by auto
qed

lemma round_even_ge:
  assumes "of_int n \<le> y"
  shows "n \<le> round_even y"
proof -
  have "n \<le> \<lfloor>y\<rfloor>" using assms by (simp add: le_floor_iff)
  then show ?thesis using round_even_cases [of y] by auto
qed

lemma round_even_frac:
  "round_even y = (if y - of_int \<lfloor>y\<rfloor> < 1 / 2 then \<lfloor>y\<rfloor>
     else if 1 / 2 < y - of_int \<lfloor>y\<rfloor> then \<lfloor>y\<rfloor> + 1
     else if even \<lfloor>y\<rfloor> then \<lfloor>y\<rfloor> else \<lfloor>y\<rfloor> + 1)"
  by (simp add: round_even_def Let_def)

lemma round_even_mono:
  assumes "x \<le> y"
  shows "round_even x \<le> round_even y"
proof (cases "\<lfloor>x\<rfloor> = \<lfloor>y\<rfloor>")
  case True
  have le: "x - of_int \<lfloor>y\<rfloor> \<le> y - of_int \<lfloor>y\<rfloor>" using assms by simp
  show ?thesis
    unfolding round_even_frac [of x] round_even_frac [of y] True
    using le by (simp split: if_splits)
next
  case False
  have "\<lfloor>x\<rfloor> \<le> \<lfloor>y\<rfloor>" using assms by (rule floor_mono)
  then have "\<lfloor>x\<rfloor> + 1 \<le> \<lfloor>y\<rfloor>" using False by simp
  moreover have "round_even x \<le> \<lfloor>x\<rfloor> + 1" using round_even_cases [of x] by linarith
  moreover have "\<lfloor>y\<rfloor> \<le> round_even y" using round_even_cases [of y] by linarith
  ultimately show ?thesis by linarith
qed

lemma floor_minus_nonint:
  fixes y :: real
  assumes "y \<noteq> of_int \<lfloor>y\<rfloor>"
  shows "\<lfloor>- y\<rfloor> = - \<lfloor>y\<rfloor> - 1"
proof (rule floor_unique)
  have lo: "of_int \<lfloor>y\<rfloor> < y" and hi: "y < of_int \<lfloor>y\<rfloor> + 1"
    using assms by linarith+
  have e: "(of_int (- \<lfloor>y\<rfloor> - 1) :: real) = - of_int \<lfloor>y\<rfloor> - 1" by simp
  show "of_int (- \<lfloor>y\<rfloor> - 1) \<le> - y" unfolding e using hi by linarith
  show "- y < of_int (- \<lfloor>y\<rfloor> - 1) + 1" unfolding e using lo by linarith
qed

lemma round_even_minus: "round_even (- y) = - round_even y"
proof (cases "y = of_int \<lfloor>y\<rfloor>")
  case True
  then obtain n where n: "y = of_int n" by blast
  have "round_even (- y) = round_even (of_int (- n))" unfolding n by simp
  also have "\<dots> = - n" by (rule round_even_of_int)
  finally show ?thesis unfolding n by simp
next
  case False
  note f = floor_minus_nonint [OF False]
  define d where "d = y - of_int \<lfloor>y\<rfloor>"
  have d: "- y - of_int (- \<lfloor>y\<rfloor> - 1) = 1 - d" by (simp add: d_def)
  have ev: "even (- \<lfloor>y\<rfloor> - 1) \<longleftrightarrow> odd \<lfloor>y\<rfloor>" by simp
  consider "d < 1 / 2" | "1 / 2 < d" | "d = 1 / 2" by linarith
  then show ?thesis
  proof cases
    case 1
    then show ?thesis
      unfolding round_even_frac [of "- y"] round_even_frac [of y] f d d_def [symmetric] by simp
  next
    case 2
    then show ?thesis
      unfolding round_even_frac [of "- y"] round_even_frac [of y] f d d_def [symmetric] by simp
  next
    case 3
    then show ?thesis
      unfolding round_even_frac [of "- y"] round_even_frac [of y] f d d_def [symmetric] ev by simp
  qed
qed

lemma round_even_0 [simp]: "round_even 0 = 0"
  using round_even_of_int [of 0] by simp

lemma round_even_eqI:
  assumes "of_int n - 1 / 2 < y" and "y < of_int n + 1 / 2"
  shows "round_even y = n"
proof -
  have "\<bar>of_int (round_even y) - y\<bar> \<le> 1 / 2" by (rule round_even_error)
  then have "\<bar>(of_int (round_even y) :: real) - of_int n\<bar> < 1" using assms by linarith
  then have "\<bar>round_even y - n\<bar> < 1"
    by (metis of_int_diff of_int_abs of_int_less_1_iff)
  then show ?thesis by simp
qed

lemma round_even_half:
  "round_even (of_int n + 1 / 2) = (if even n then n else n + 1)"
proof -
  have "\<lfloor>(of_int n :: real) + 1 / 2\<rfloor> = n" by (rule floor_unique) simp_all
  then show ?thesis by (simp add: round_even_frac)
qed

section \<open>Powers of two\<close>

lemma two_powi_pos [simp]: "0 < (2::real) powi k"
  by (simp add: zero_less_power_int)

lemma powi_cong: "a = b \<Longrightarrow> (2::real) powi a = 2 powi b"
  by simp

lemma two_powi_less: "a < b \<Longrightarrow> (2::real) powi a < 2 powi b"
  by (rule power_int_strict_increasing) simp_all

lemma two_powi_mono: "a \<le> b \<Longrightarrow> (2::real) powi a \<le> 2 powi b"
  using two_powi_less [of a b] by (cases "a = b") simp_all

lemma two_powi_less_D: "(2::real) powi a < 2 powi b \<Longrightarrow> a < b"
  using two_powi_mono [of b a] by (cases "a < b") simp_all

lemma two_powi_le_D: "(2::real) powi a \<le> 2 powi b \<Longrightarrow> a \<le> b"
  using two_powi_less [of b a] by (cases "a \<le> b") simp_all

lemma two_powi_add: "(2::real) powi (a + b) = 2 powi a * 2 powi b"
  by (rule power_int_add) simp

lemma two_powi_diff: "(2::real) powi (a - b) = 2 powi a / 2 powi b"
  by (rule power_int_diff) simp

lemma two_powi_Suc: "(2::real) powi (a + 1) = 2 * 2 powi a"
  by (simp add: two_powi_add)

lemma floor_log2_iff:
  assumes "x \<noteq> 0"
  shows "\<lfloor>log 2 \<bar>x\<bar>\<rfloor> = k \<longleftrightarrow> 2 powi k \<le> \<bar>x\<bar> \<and> \<bar>x\<bar> < 2 powi (k + 1)"
proof -
  have a: "(2::real) powr real_of_int k = 2 powi k"
    by (rule powr_real_of_int') simp_all
  have b: "(2::real) powr real_of_int (k + 1) = 2 powi (k + 1)"
    by (rule powr_real_of_int') simp_all
  have "0 < \<bar>x\<bar>" using assms by simp
  then show ?thesis
    using floor_log_eq_powr_iff [of "\<bar>x\<bar>" 2 k] unfolding a b by simp
qed

section \<open>The exponent\<close>

lemma expo_ge: "- 1022 \<le> expo x"
  by (simp add: expo_def)

lemma expo_minus [simp]: "expo (- x) = expo x"
  by (simp add: expo_def)

lemma expo_normal:
  assumes "2 powi e \<le> \<bar>x\<bar>" and "\<bar>x\<bar> < 2 powi (e + 1)" and "- 1022 \<le> e"
  shows "expo x = e"
proof -
  have "0 < \<bar>x\<bar>" using assms(1) two_powi_pos [of e] by linarith
  then have "x \<noteq> 0" by simp
  then have "\<lfloor>log 2 \<bar>x\<bar>\<rfloor> = e" using assms(1,2) by (simp add: floor_log2_iff)
  then show ?thesis using assms(3) by (simp add: expo_def)
qed

lemma expo_upper:
  assumes "x \<noteq> 0"
  shows "\<bar>x\<bar> < 2 powi (expo x + 1)"
proof -
  have "\<bar>x\<bar> < 2 powi (\<lfloor>log 2 \<bar>x\<bar>\<rfloor> + 1)"
    using floor_log2_iff [OF assms, of "\<lfloor>log 2 \<bar>x\<bar>\<rfloor>"] by simp
  also have "\<dots> \<le> 2 powi (expo x + 1)"
    by (rule two_powi_mono) (simp add: expo_def)
  finally show ?thesis .
qed

lemma expo_lower:
  assumes "2 powi (- 1022) \<le> \<bar>x\<bar>"
  shows "2 powi (expo x) \<le> \<bar>x\<bar>"
proof -
  have "0 < \<bar>x\<bar>" using assms two_powi_pos [of "- 1022"] by linarith
  then have x: "x \<noteq> 0" by simp
  define e where "e = \<lfloor>log 2 \<bar>x\<bar>\<rfloor>"
  have e: "2 powi e \<le> \<bar>x\<bar>" "\<bar>x\<bar> < 2 powi (e + 1)"
    using floor_log2_iff [OF x, of e] by (simp_all add: e_def)
  have "(2::real) powi (- 1022) < 2 powi (e + 1)" using assms e(2) by linarith
  then have "- 1022 < e + 1" by (rule two_powi_less_D)
  then have "expo x = e" by (simp add: expo_def e_def)
  then show ?thesis using e(1) by simp
qed

lemma expo_subnormal:
  assumes "\<bar>x\<bar> < 2 powi (- 1022)" and "x \<noteq> 0"
  shows "expo x = - 1022"
proof -
  note False = assms(2)
  define e where "e = \<lfloor>log 2 \<bar>x\<bar>\<rfloor>"
  have "2 powi e \<le> \<bar>x\<bar>"
    using floor_log2_iff [OF False, of e] by (simp add: e_def)
  then have "(2::real) powi e < 2 powi (- 1022)" using assms(1) by linarith
  then have "e < - 1022" by (rule two_powi_less_D)
  then show ?thesis by (simp add: expo_def e_def)
qed

lemma expo_le:
  assumes "\<bar>x\<bar> < 2 powi (k + 1)" and "- 1022 \<le> k" and "x \<noteq> 0"
  shows "expo x \<le> k"
proof (cases "\<bar>x\<bar> < 2 powi (- 1022)")
  case True
  then show ?thesis using assms(2,3) by (simp add: expo_subnormal)
next
  case False
  then have "2 powi (expo x) \<le> \<bar>x\<bar>" by (simp add: expo_lower)
  then have "(2::real) powi (expo x) < 2 powi (k + 1)" using assms(1) by linarith
  then have "expo x < k + 1" by (rule two_powi_less_D)
  then show ?thesis by simp
qed

section \<open>Rounding to nearest, ties to even\<close>

lemma rnd_0 [simp]: "rnd 0 = 0"
  by (simp add: rnd_def)

lemma rnd_q:
  "rnd x = of_int (round_even (x / 2 powi (expo x - 52))) * 2 powi (expo x - 52)"
  by (simp add: rnd_def)

lemma rnd_minus: "rnd (- x) = - rnd x"
  by (simp add: rnd_q round_even_minus)

lemma rnd_binade:
  assumes "2 powi e \<le> \<bar>x\<bar>" and "\<bar>x\<bar> < 2 powi (e + 1)" and "- 1022 \<le> e"
  shows "rnd x = of_int (round_even (x / 2 powi (e - 52))) * 2 powi (e - 52)"
  unfolding rnd_q expo_normal [OF assms] ..

lemma rnd_error: "\<bar>rnd x - x\<bar> \<le> 2 powi (expo x - 53)"
proof -
  define s :: real where "s = 2 powi (expo x - 52)"
  have s: "0 < s" by (simp add: s_def)
  define y where "y = x / s"
  have x: "x = y * s" using s by (simp add: y_def)
  have "rnd x - x = (of_int (round_even y) - y) * s"
    unfolding rnd_q s_def [symmetric] y_def [symmetric] using x by (simp add: algebra_simps)
  then have "\<bar>rnd x - x\<bar> = \<bar>of_int (round_even y) - y\<bar> * s"
    using s by (simp add: abs_mult)
  also have "\<dots> \<le> 1 / 2 * s"
    using round_even_error [of y] s by (intro mult_right_mono) simp_all
  also have "\<dots> = 2 powi (expo x - 53)"
  proof -
    have "(2::real) powi (expo x - 52) = 2 powi ((expo x - 53) + 1)" by simp
    also have "\<dots> = 2 * 2 powi (expo x - 53)" by (rule two_powi_Suc)
    finally show ?thesis by (simp add: s_def)
  qed
  finally show ?thesis .
qed

lemma rnd_grid:
  assumes "x = of_int k * 2 powi (expo x - 52)"
  shows "rnd x = x"
proof -
  have "x / 2 powi (expo x - 52) = of_int k"
    using assms two_powi_pos [of "expo x - 52"] by (simp add: field_simps)
  then show ?thesis unfolding rnd_q using assms by simp
qed

lemma rnd_dbl:
  assumes "dbl d"
  shows "rnd d = d"
proof (cases "d = 0")
  case True
  then show ?thesis by simp
next
  case False
  obtain m p where d: "d = of_int m * 2 powi p" and m: "\<bar>m\<bar> < 2 ^ 53" and p: "- 1074 \<le> p"
    using assms unfolding dbl_def by blast
  have "\<bar>d\<bar> = \<bar>of_int m\<bar> * 2 powi p" unfolding d by (simp add: abs_mult)
  also have "\<dots> < 2 ^ 53 * 2 powi p"
  proof (rule mult_strict_right_mono)
    have "(of_int \<bar>m\<bar> :: real) < of_int (2 ^ 53)" using m by (simp only: of_int_less_iff)
    then show "\<bar>(of_int m :: real)\<bar> < 2 ^ 53" by simp
  qed simp
  also have "\<dots> = 2 powi ((52 + p) + 1)"
  proof -
    have "(2::real) powi ((52 + p) + 1) = 2 powi (53 + p)" by (rule powi_cong) simp
    also have "\<dots> = 2 powi 53 * 2 powi p" by (rule two_powi_add)
    finally show ?thesis by simp
  qed
  finally have "\<bar>d\<bar> < 2 powi ((52 + p) + 1)" .
  then have "expo d \<le> 52 + p" using p False by (intro expo_le) simp_all
  then have q: "0 \<le> p - (expo d - 52)" by simp
  define n where "n = nat (p - (expo d - 52))"
  have "(2::real) powi p = 2 powi ((p - (expo d - 52)) + (expo d - 52))" by simp
  also have "\<dots> = 2 powi (p - (expo d - 52)) * 2 powi (expo d - 52)" by (rule two_powi_add)
  also have "(2::real) powi (p - (expo d - 52)) = 2 ^ n"
    using q by (simp add: power_int_nonneg_exp n_def)
  finally have "d = of_int (m * 2 ^ n) * 2 powi (expo d - 52)" unfolding d by simp
  then show ?thesis by (rule rnd_grid)
qed

lemma dbl_powi: "- 1074 \<le> k \<Longrightarrow> dbl (2 powi k)"
  unfolding dbl_def by (rule exI [of _ 1], rule exI [of _ k]) simp

lemma dbl_0 [simp]: "dbl 0"
  unfolding dbl_def by (rule exI [of _ 0], rule exI [of _ 0]) simp

lemma dbl_minus: "dbl d \<Longrightarrow> dbl (- d)"
  unfolding dbl_def
  by (elim exE conjE, rule_tac x = "- m" in exI, rule_tac x = p in exI) simp

lemma rnd_scaled_bounds:
  "\<bar>x / 2 powi (expo x - 52)\<bar> \<le> 2 ^ 53"
proof (cases "x = 0")
  case True
  then show ?thesis by simp
next
  case False
  have "\<bar>x\<bar> < 2 powi (expo x + 1)" using False by (rule expo_upper)
  also have "(2::real) powi (expo x + 1) = 2 powi (53 + (expo x - 52))"
    by (rule powi_cong) simp
  also have "\<dots> = 2 powi 53 * 2 powi (expo x - 52)" by (rule two_powi_add)
  finally have "\<bar>x\<bar> / 2 powi (expo x - 52) < 2 powi 53"
    by (simp add: field_simps)
  then show ?thesis by (simp add: abs_divide)
qed

lemma dbl_rnd: "dbl (rnd x)"
proof -
  define q where "q = expo x - 52"
  define n where "n = round_even (x / 2 powi q)"
  have r: "rnd x = of_int n * 2 powi q" unfolding rnd_q n_def q_def ..
  have q: "- 1074 \<le> q" using expo_ge [of x] by (simp add: q_def)
  have b: "\<bar>x / 2 powi q\<bar> \<le> 2 ^ 53" unfolding q_def by (rule rnd_scaled_bounds)
  have u: "x / 2 powi q \<le> 2 ^ 53" "- (2 ^ 53) \<le> x / 2 powi q" using b by linarith+
  have "x / 2 powi q \<le> of_int (2 ^ 53)" using u(1) by simp
  then have up: "n \<le> 2 ^ 53" unfolding n_def by (rule round_even_le)
  have "of_int (- (2 ^ 53)) \<le> x / 2 powi q" using u(2) by simp
  then have lo: "- (2 ^ 53) \<le> n" unfolding n_def by (rule round_even_ge)
  consider "\<bar>n\<bar> < 2 ^ 53" | "n = 2 ^ 53" | "n = - (2 ^ 53)" using up lo by linarith
  then show ?thesis
  proof cases
    case 1
    then show ?thesis unfolding dbl_def r using q by blast
  next
    case 2
    have "rnd x = 2 powi (53 + q)" unfolding r 2 by (simp add: two_powi_add)
    then show ?thesis using q by (simp add: dbl_powi)
  next
    case 3
    have "rnd x = - (2 powi (53 + q))" unfolding r 3 by (simp add: two_powi_add)
    then show ?thesis using q by (simp add: dbl_powi dbl_minus)
  qed
qed

lemma rnd_nonneg: "0 \<le> x \<Longrightarrow> 0 \<le> rnd x"
proof -
  assume "0 \<le> x"
  then have "of_int 0 \<le> x / 2 powi (expo x - 52)" by simp
  then have "0 \<le> round_even (x / 2 powi (expo x - 52))" by (rule round_even_ge)
  then show ?thesis unfolding rnd_q by simp
qed

lemma rnd_mono_pos:
  assumes "0 < x" and "x \<le> y"
  shows "rnd x \<le> rnd y"
proof (cases "expo x = expo y")
  case True
  have "x / 2 powi (expo y - 52) \<le> y / 2 powi (expo y - 52)"
    using assms(2) by (simp add: divide_right_mono)
  then have "round_even (x / 2 powi (expo y - 52)) \<le> round_even (y / 2 powi (expo y - 52))"
    by (rule round_even_mono)
  then show ?thesis unfolding rnd_q True by (simp add: mult_right_mono)
next
  case False
  have y: "0 < y" using assms by simp
  have xn: "x \<noteq> 0" and yn: "y \<noteq> 0" using assms by simp_all
  have "expo x \<le> expo y"
  proof (rule expo_le)
    have "\<bar>x\<bar> \<le> \<bar>y\<bar>" using assms by simp
    also have "\<dots> < 2 powi (expo y + 1)" using yn by (rule expo_upper)
    finally show "\<bar>x\<bar> < 2 powi (expo y + 1)" .
  qed (rule expo_ge, rule xn)
  then have lt: "expo x < expo y" using False by simp
  define b :: real where "b = 2 powi (expo y)"
  have norm: "- 1022 < expo y" using lt expo_ge [of x] by simp
  have by1: "b \<le> y"
  proof -
    have "\<not> \<bar>y\<bar> < 2 powi (- 1022)"
    proof
      assume "\<bar>y\<bar> < 2 powi (- 1022)"
      then have "expo y = - 1022" using yn by (rule expo_subnormal)
      then show False using norm by simp
    qed
    then have "2 powi (expo y) \<le> \<bar>y\<bar>" by (simp add: expo_lower)
    then show ?thesis using y by (simp add: b_def)
  qed
  have bx: "x < b"
  proof -
    have "\<bar>x\<bar> < 2 powi (expo x + 1)" using xn by (rule expo_upper)
    also have "\<dots> \<le> 2 powi (expo y)" using lt by (intro two_powi_mono) simp
    finally show ?thesis using assms(1) by (simp add: b_def)
  qed
  have "rnd x \<le> b"
  proof -
    define n where "n = nat (expo y - (expo x - 52))"
    have "b = 2 powi ((expo y - (expo x - 52)) + (expo x - 52))" by (simp add: b_def)
    also have "\<dots> = 2 powi (expo y - (expo x - 52)) * 2 powi (expo x - 52)"
      by (rule two_powi_add)
    also have "(2::real) powi (expo y - (expo x - 52)) = 2 ^ n"
      using lt by (simp add: power_int_nonneg_exp n_def)
    finally have b: "b = of_int (2 ^ n) * 2 powi (expo x - 52)" by simp
    have "x / 2 powi (expo x - 52) \<le> b / 2 powi (expo x - 52)"
      using bx by (simp add: divide_right_mono)
    also have "\<dots> = of_int (2 ^ n)" unfolding b by simp
    finally have "round_even (x / 2 powi (expo x - 52)) \<le> 2 ^ n" by (rule round_even_le)
    then have "(of_int (round_even (x / 2 powi (expo x - 52))) :: real) \<le> of_int (2 ^ n)"
      by (simp only: of_int_le_iff)
    then show ?thesis unfolding rnd_q [of x] b by (simp add: mult_right_mono)
  qed
  moreover have "b \<le> rnd y"
  proof -
    have "(2::real) powi (expo y) = 2 powi (52 + (expo y - 52))" by simp
    also have "\<dots> = 2 powi 52 * 2 powi (expo y - 52)" by (rule two_powi_add)
    finally have b: "b = of_int (2 ^ 52) * 2 powi (expo y - 52)" by (simp add: b_def)
    have "of_int (2 ^ 52) = b / 2 powi (expo y - 52)" unfolding b by simp
    also have "\<dots> \<le> y / 2 powi (expo y - 52)"
      using by1 by (simp add: divide_right_mono)
    finally have "2 ^ 52 \<le> round_even (y / 2 powi (expo y - 52))" by (rule round_even_ge)
    then have "(of_int (2 ^ 52) :: real) \<le> of_int (round_even (y / 2 powi (expo y - 52)))"
      by (simp only: of_int_le_iff)
    then show ?thesis unfolding rnd_q [of y] b by (simp add: mult_right_mono)
  qed
  ultimately show ?thesis by linarith
qed

lemma rnd_mono:
  assumes "x \<le> y"
  shows "rnd x \<le> rnd y"
proof -
  consider "0 < x" | "x \<le> 0" "0 \<le> y" | "y < 0" by linarith
  then show ?thesis
  proof cases
    case 1
    then show ?thesis using assms by (rule rnd_mono_pos)
  next
    case 2
    have "0 \<le> rnd (- x)" using 2(1) by (intro rnd_nonneg) simp
    then have "rnd x \<le> 0" by (simp add: rnd_minus)
    moreover have "0 \<le> rnd y" using 2(2) by (rule rnd_nonneg)
    ultimately show ?thesis by linarith
  next
    case 3
    have "rnd (- y) \<le> rnd (- x)" using 3 assms by (intro rnd_mono_pos) simp_all
    then show ?thesis by (simp add: rnd_minus)
  qed
qed

lemma rnd_le: "dbl d \<Longrightarrow> x \<le> d \<Longrightarrow> rnd x \<le> d"
  using rnd_mono [of x d] by (simp add: rnd_dbl)

lemma rnd_ge: "dbl d \<Longrightarrow> d \<le> x \<Longrightarrow> d \<le> rnd x"
  using rnd_mono [of d x] by (simp add: rnd_dbl)

lemma rnd_idem [simp]: "rnd (rnd x) = rnd x"
  by (rule rnd_dbl) (rule dbl_rnd)

lemma rnd_abs_le:
  assumes "dbl d" and "\<bar>x\<bar> \<le> d"
  shows "\<bar>rnd x\<bar> \<le> d"
proof -
  have "rnd x \<le> d" using assms by (intro rnd_le) simp_all
  moreover have "- d \<le> rnd x" using assms by (intro rnd_ge dbl_minus) simp_all
  ultimately show ?thesis by simp
qed

lemma rnd_rel_error:
  assumes "2 powi (- 1022) \<le> \<bar>x\<bar>"
  shows "\<bar>rnd x - x\<bar> \<le> \<bar>x\<bar> * 2 powi (- 53)"
proof -
  have "\<bar>rnd x - x\<bar> \<le> 2 powi (expo x + (- 53))" using rnd_error [of x] by simp
  also have "\<dots> = 2 powi (expo x) * 2 powi (- 53)" by (rule two_powi_add)
  also have "\<dots> \<le> \<bar>x\<bar> * 2 powi (- 53)"
    using expo_lower [OF assms] by (intro mult_right_mono) simp_all
  finally show ?thesis .
qed

lemma rnd_abs_error:
  assumes "\<bar>x\<bar> \<le> 2 powi k" and "- 1021 \<le> k"
  shows "\<bar>rnd x - x\<bar> \<le> 2 powi (k - 54)"
proof (cases "\<bar>x\<bar> = 2 powi k \<or> x = 0")
  case True
  then have "x = 2 powi k \<or> x = - (2 powi k) \<or> x = 0" by linarith
  then have "dbl x" using assms(2) by (auto intro!: dbl_powi dbl_minus)
  then show ?thesis by (simp add: rnd_dbl)
next
  case False
  then have "\<bar>x\<bar> < 2 powi ((k - 1) + 1)" using assms(1) by simp
  then have "expo x \<le> k - 1" using assms(2) False by (intro expo_le) simp_all
  then have "(2::real) powi (expo x - 53) \<le> 2 powi (k - 54)" by (intro two_powi_mono) simp
  then show ?thesis using rnd_error [of x] by linarith
qed

lemma rnd_scale:
  assumes "2 powi (- 1022) \<le> \<bar>x\<bar>" and "2 powi (- 1022) \<le> \<bar>x\<bar> * 2 powi k"
  shows "rnd (x * 2 powi k) = rnd x * 2 powi k"
proof -
  define e where "e = expo x"
  have "0 < \<bar>x\<bar>" using assms(1) two_powi_pos [of "- 1022"] by linarith
  then have x: "x \<noteq> 0" by simp
  have lo: "2 powi e \<le> \<bar>x\<bar>" unfolding e_def using assms(1) by (rule expo_lower)
  have hi: "\<bar>x\<bar> < 2 powi (e + 1)" unfolding e_def using x by (rule expo_upper)
  have a: "\<bar>x * 2 powi k\<bar> = \<bar>x\<bar> * 2 powi k" by (simp add: abs_mult)
  have lo': "2 powi (e + k) \<le> \<bar>x * 2 powi k\<bar>"
    unfolding a two_powi_add using lo by (intro mult_right_mono) simp_all
  have hi': "\<bar>x * 2 powi k\<bar> < 2 powi ((e + k) + 1)"
  proof -
    have "\<bar>x\<bar> * 2 powi k < 2 powi (e + 1) * 2 powi k"
      using hi by (intro mult_strict_right_mono) simp_all
    also have "\<dots> = 2 powi ((e + 1) + k)" by (rule two_powi_add [symmetric])
    also have "\<dots> = 2 powi ((e + k) + 1)" by (rule powi_cong) simp
    finally show ?thesis unfolding a .
  qed
  have "(2::real) powi (- 1022) < 2 powi ((e + k) + 1)" using assms(2) hi' a by linarith
  then have "- 1022 < (e + k) + 1" by (rule two_powi_less_D)
  then have n: "- 1022 \<le> e + k" by simp
  have ex: "expo (x * 2 powi k) = e + k" using lo' hi' n by (rule expo_normal)
  have "(2::real) powi (e + k - 52) = 2 powi ((e - 52) + k)" by (rule powi_cong) simp
  also have "\<dots> = 2 powi (e - 52) * 2 powi k" by (rule two_powi_add)
  finally have s: "(2::real) powi (e + k - 52) = 2 powi (e - 52) * 2 powi k" .
  have "x * 2 powi k / (2 powi (e - 52) * 2 powi k) = x / 2 powi (e - 52)" by simp
  then show ?thesis unfolding rnd_q [of "x * 2 powi k"] ex s rnd_q [of x] e_def [symmetric]
    by (simp add: mult.assoc)
qed

section \<open>Overflow\<close>

lemma fl_finite:
  assumes "\<bar>x\<bar> \<le> 2 powi k" and "- 1074 \<le> k" and "k \<le> 1023"
  shows "fl x = Fin (rnd x)"
proof -
  have "\<bar>rnd x\<bar> \<le> 2 powi k" using assms(1,2) by (intro rnd_abs_le dbl_powi)
  also have "\<dots> < 2 powi 1024" using assms(3) by (intro two_powi_less) simp
  finally show ?thesis by (simp add: fl_def)
qed

section \<open>Geometry in binary64\<close>

lemma dblI: "d = of_int m * 2 powi p \<Longrightarrow> \<bar>m\<bar> < 2 ^ 53 \<Longrightarrow> - 1074 \<le> p \<Longrightarrow> dbl d"
  unfolding dbl_def by blast

lemma dbl_nat:
  assumes "n < 2 ^ 53"
  shows "dbl (real n)"
proof (rule dblI)
  show "real n = of_int (int n) * 2 powi 0" by simp
  show "\<bar>int n\<bar> < 2 ^ 53" using assms by simp
qed simp

lemma dbl_half_nat:
  assumes "n < 2 ^ 53"
  shows "dbl (real n / 2)"
proof (rule dblI)
  show "real n / 2 = of_int (int n) * 2 powi (- 1)" by simp
  show "\<bar>int n\<bar> < 2 ^ 53" using assms by simp
qed simp

lemma fl_dbl:
  assumes "dbl d" and "\<bar>d\<bar> \<le> 2 ^ 64"
  shows "fl d = Fin d"
proof -
  have "\<bar>d\<bar> \<le> 2 powi 64" using assms(2) by simp
  then have "fl d = Fin (rnd d)" by (rule fl_finite) simp_all
  then show ?thesis using assms(1) by (simp add: rnd_dbl)
qed

lemma fl_rnd:
  assumes "\<bar>x\<bar> \<le> 2 powi k" and "- 1074 \<le> k" and "k \<le> 1023"
  shows "fl (rnd x) = Fin (rnd x)"
proof -
  have "\<bar>rnd x\<bar> \<le> 2 powi k" using assms(1,2) by (intro rnd_abs_le dbl_powi)
  then have "fl (rnd x) = Fin (rnd (rnd x))" using assms(2,3) by (rule fl_finite)
  then show ?thesis by simp
qed

text \<open>Halving and dividing by the pixel ratio commute when nothing overflows or underflows.\<close>

lemma js_div64_half_commute:
  assumes n: "n < 2 ^ 32" and lo: "2 powi (- 960) \<le> \<bar>r\<bar>" and hi: "\<bar>r\<bar> \<le> 2 powi 960"
  shows "js_div64 (js_div64 (Fin (real n)) (Fin 2)) (Fin r) =
         js_div64 (js_div64 (Fin (real n)) (Fin r)) (Fin 2)"
proof (cases "n = 0")
  case True
  have "0 < \<bar>r\<bar>" using lo two_powi_pos [of "- 960"] by linarith
  then have r: "r \<noteq> 0" by simp
  show ?thesis using r True by (simp add: js_div64_def fl_def)
next
  case False
  have "0 < \<bar>r\<bar>" using lo two_powi_pos [of "- 960"] by linarith
  then have r: "r \<noteq> 0" and rp: "0 < \<bar>r\<bar>" by simp_all
  define x where "x = real n / r"
  have n53: "n < 2 ^ 53" using n by simp
  have h: "js_div64 (Fin (real n)) (Fin 2) = Fin (real n / 2)"
  proof -
    have "real n / 2 \<le> 2 ^ 64" using n by simp
    then show ?thesis using fl_dbl [OF dbl_half_nat [OF n53]] by (simp add: js_div64_def)
  qed
  have n1: "1 \<le> real n" using False by simp
  have n2: "real n \<le> 2 powi 32" using n by simp
  have ax: "\<bar>x\<bar> = real n / \<bar>r\<bar>" by (simp add: x_def abs_divide)
  have xhi: "\<bar>x\<bar> \<le> 2 powi 992"
  proof -
    have "real n / \<bar>r\<bar> \<le> 2 powi 32 / 2 powi (- 960)"
      using n2 lo by (intro frac_le) simp_all
    also have "\<dots> = 2 powi (32 - (- 960))" by (rule two_powi_diff [symmetric])
    finally show ?thesis unfolding ax by simp
  qed
  have xlo: "2 powi (- 960) \<le> \<bar>x\<bar>"
  proof -
    have "(2::real) powi (- 960) = 2 powi (0 - 960)" by simp
    also have "\<dots> = 2 powi 0 / 2 powi 960" by (rule two_powi_diff)
    also have "\<dots> \<le> real n / \<bar>r\<bar>" using n1 hi rp by (intro frac_le) simp_all
    finally show ?thesis unfolding ax .
  qed
  have sc: "rnd (x * 2 powi (- 1)) = rnd x * 2 powi (- 1)"
  proof (rule rnd_scale)
    have "(2::real) powi (- 1022) \<le> 2 powi (- 960)" by (rule two_powi_mono) simp
    then show "2 powi (- 1022) \<le> \<bar>x\<bar>" using xlo by linarith
    have "(2::real) powi (- 1022) \<le> 2 powi (- 960 + - 1)" by (rule two_powi_mono) simp
    also have "\<dots> = 2 powi (- 960) * 2 powi (- 1)" by (rule two_powi_add)
    also have "\<dots> \<le> \<bar>x\<bar> * 2 powi (- 1)" using xlo by (intro mult_right_mono) simp_all
    finally show "2 powi (- 1022) \<le> \<bar>x\<bar> * 2 powi (- 1)" .
  qed
  have half: "x * 2 powi (- 1) = x / 2" by simp
  have x2: "\<bar>x / 2\<bar> \<le> 2 powi 992" using xhi by simp
  have "js_div64 (Fin (real n / 2)) (Fin r) = fl (real n / 2 / r)"
    using r by (simp add: js_div64_def)
  also have "real n / 2 / r = x / 2" by (simp add: x_def)
  also have "fl (x / 2) = Fin (rnd (x / 2))" using x2 by (rule fl_finite) simp_all
  finally have lhs: "js_div64 (js_div64 (Fin (real n)) (Fin 2)) (Fin r) = Fin (rnd (x / 2))"
    unfolding h .
  have "js_div64 (Fin (real n)) (Fin r) = fl x"
    using r by (simp add: js_div64_def x_def)
  also have "\<dots> = Fin (rnd x)" using xhi by (rule fl_finite) simp_all
  finally have "js_div64 (Fin (real n)) (Fin r) = Fin (rnd x)" .
  then have "js_div64 (js_div64 (Fin (real n)) (Fin r)) (Fin 2) = fl (rnd x / 2)"
    by (simp add: js_div64_def)
  also have "rnd x / 2 = rnd (x / 2)" using sc unfolding half by simp
  also have "fl (rnd (x / 2)) = Fin (rnd (x / 2))" using x2 by (rule fl_rnd) simp_all
  finally show ?thesis using lhs by simp
qed

lemma canvas_dimension_nat:
  assumes "k < 2 ^ 32"
  shows "\<exists>n. canvas_dimension k v = Fin (real n) \<and> n < 2 ^ 32"
proof -
  have "(if ToUint32 v \<le> 2147483647 then ToUint32 v else k) < 2 ^ 32"
    using assms by simp
  then show ?thesis unfolding canvas_dimension_def Let_def by blast
qed

text \<open>
  Claim C5. For every viewport, pixel ratio and density, \<open>canvasResize\<close> stores the
  geometry that \<open>computeGeometry\<close> gives, in binary64 arithmetic, for the viewport in
  device pixels, which is the width and height that the canvas element keeps: the tile
  edge is the shorter side divided by the density and by the pixel ratio, rows and
  columns are ceilings, and the centre that \<open>draw\<close> uses is that of the specification. So
  is the maximal distance when the pixel ratio is between \<open>2 ^ - 960\<close> and \<open>2 ^ 960\<close> in
  absolute value: the program halves before it divides by the ratio and the
  specification after, which agree when neither quotient overflows or underflows.
\<close>

theorem canvasResize64_geometry:
  assumes "canvas this = Some cv0"
  shows "let this' = canvasResize64 this win;
             viewportWidth =
               canvas_dimension 300 (js_mul64 (innerWidth win) (devicePixelRatio win));
             viewportHeight =
               canvas_dimension 150 (js_mul64 (innerHeight win) (devicePixelRatio win));
             grid = computeGeometry64 viewportWidth viewportHeight (devicePixelRatio win)
                      (density this)
         in \<exists>cv. canvas this' = Some cv \<and> width cv = viewportWidth \<and>
              height cv = viewportHeight \<and>
              size_tile this' = tileEdge grid \<and> rows this' = grid_rows grid \<and>
              cols this' = grid_cols grid \<and> centerX64_of cv win = centerX grid \<and>
              centerY64_of cv win = centerY grid \<and>
              (\<forall>r. devicePixelRatio win = Fin r \<and> 2 powi (- 960) \<le> \<bar>r\<bar> \<and> \<bar>r\<bar> \<le> 2 powi 960 \<longrightarrow>
                 distanceMax this' = maxDistance grid)"
proof -
  obtain w where w: "canvas_dimension 300 (js_mul64 (innerWidth win) (devicePixelRatio win)) =
      Fin (real w)" "w < 2 ^ 32"
    using canvas_dimension_nat [of 300] by auto
  obtain h where h: "canvas_dimension 150 (js_mul64 (innerHeight win) (devicePixelRatio win)) =
      Fin (real h)" "h < 2 ^ 32"
    using canvas_dimension_nat [of 150] by auto
  have d: "js_div64 (js_div64 (Fin (real w)) (Fin 2)) (Fin r) =
           js_div64 (js_div64 (Fin (real w)) (Fin r)) (Fin 2) \<and>
           js_div64 (js_div64 (Fin (real h)) (Fin 2)) (Fin r) =
           js_div64 (js_div64 (Fin (real h)) (Fin r)) (Fin 2)"
    if "2 powi (- 960) \<le> \<bar>r\<bar>" "\<bar>r\<bar> \<le> 2 powi 960" for r
    using js_div64_half_commute [OF w(2) that] js_div64_half_commute [OF h(2) that] by simp
  have m: "distanceMax (canvasResize64 this win) =
      maxDistance (computeGeometry64 (Fin (real w)) (Fin (real h)) (devicePixelRatio win)
        (density this))"
    if "devicePixelRatio win = Fin r \<and> 2 powi (- 960) \<le> \<bar>r\<bar> \<and> \<bar>r\<bar> \<le> 2 powi 960" for r
  proof -
    note e = d [of r, OF that [THEN conjunct2, THEN conjunct1]
      that [THEN conjunct2, THEN conjunct2]]
    have r: "devicePixelRatio win = Fin r" using that by (rule conjunct1)
    show ?thesis
      using assms
      by (simp add: canvasResize64_def computeGeometry64_def Let_def w(1) [unfolded r]
          h(1) [unfolded r] r e)
  qed
  have g: "\<exists>cv. canvas (canvasResize64 this win) = Some cv \<and> width cv = Fin (real w) \<and>
      height cv = Fin (real h) \<and>
      size_tile (canvasResize64 this win) =
        tileEdge (computeGeometry64 (Fin (real w)) (Fin (real h)) (devicePixelRatio win)
          (density this)) \<and>
      rows (canvasResize64 this win) =
        grid_rows (computeGeometry64 (Fin (real w)) (Fin (real h)) (devicePixelRatio win)
          (density this)) \<and>
      cols (canvasResize64 this win) =
        grid_cols (computeGeometry64 (Fin (real w)) (Fin (real h)) (devicePixelRatio win)
          (density this)) \<and>
      centerX64_of cv win =
        centerX (computeGeometry64 (Fin (real w)) (Fin (real h)) (devicePixelRatio win)
          (density this)) \<and>
      centerY64_of cv win =
        centerY (computeGeometry64 (Fin (real w)) (Fin (real h)) (devicePixelRatio win)
          (density this))"
    using assms
    by (simp add: canvasResize64_def computeGeometry64_def Let_def centerX64_of_def
        centerY64_of_def w(1) h(1))
  show ?thesis
    unfolding Let_def w(1) h(1) using g m by blast
qed

section \<open>Evaluation\<close>

lemma js_add64_Fin: "js_add64 (Fin a) (Fin b) = fl (a + b)"
  by (simp add: js_add64_def)

lemma js_sub64_Fin: "js_sub64 (Fin a) (Fin b) = fl (a - b)"
  by (simp add: js_sub64_def js_sub_def)

lemma js_mul64_Fin: "js_mul64 (Fin a) (Fin b) = fl (a * b)"
  by (simp add: js_mul64_def)

lemma js_square64_Fin: "js_square64 (Fin a) = fl (a ^ 2)"
  by (simp add: js_square64_def)

lemma Math_sqrt64_Fin: "0 \<le> a \<Longrightarrow> Math_sqrt64 (Fin a) = fl (sqrt a)"
  by (simp add: Math_sqrt64_def)

lemma fl_0 [simp]: "fl 0 = Fin 0"
  by (simp add: fl_def)

lemma fl_dyadic:
  assumes "\<bar>m\<bar> < 2 ^ 53" and "k \<le> 1074" and "\<bar>of_int m / 2 ^ k\<bar> \<le> (2 ^ 64 :: real)"
  shows "fl (of_int m / 2 ^ k) = Fin (of_int m / 2 ^ k)"
proof (rule fl_dbl)
  show "dbl (of_int m / 2 ^ k)"
  proof (rule dblI)
    show "(of_int m / 2 ^ k :: real) = of_int m * 2 powi (- int k)"
      by (simp add: power_int_minus field_simps)
    show "\<bar>m\<bar> < 2 ^ 53" by (rule assms(1))
    show "- 1074 \<le> - int k" using assms(2) by simp
  qed
  show "\<bar>of_int m / 2 ^ k :: real\<bar> \<le> 2 ^ 64" by (rule assms(3))
qed

lemma fl_of_nat:
  assumes "n < 2 ^ 53"
  shows "fl (real n) = Fin (real n)"
proof (rule fl_dbl)
  show "dbl (real n)" using assms by (rule dbl_nat)
  have "real n < real (2 ^ 53)" using assms by (simp only: of_nat_less_iff)
  then show "\<bar>real n\<bar> \<le> 2 ^ 64" by simp
qed

lemma fl_numeral [simp]:
  assumes "(numeral k :: nat) < 2 ^ 53"
  shows "fl (numeral k) = Fin (numeral k)"
  using fl_of_nat [OF assms] by (simp only: of_nat_numeral)

lemma fl_1 [simp]: "fl 1 = Fin 1"
  using fl_dyadic [of 1 0] by simp

lemma ToUint32_nat:
  assumes "n < 2 ^ 32"
  shows "ToUint32 (Fin (real n)) = n"
proof -
  have "int n < 2 ^ 32" using assms by (simp only: of_nat_less_iff [symmetric, where 'a = int]) simp
  then have "int n mod 2 ^ 32 = int n" by simp
  then show ?thesis by (simp add: ToUint32_def)
qed

lemma canvas_dimension_nat_eq:
  assumes "n < 2 ^ 31"
  shows "canvas_dimension d (Fin (real n)) = Fin (real n)"
proof -
  have "n < 2 ^ 32" using assms by simp
  then have "ToUint32 (Fin (real n)) = n" by (rule ToUint32_nat)
  moreover have "n \<le> 2147483647" using assms by simp
  ultimately show ?thesis by (simp add: canvas_dimension_def)
qed

lemma canvas_dimension_numeral [simp]:
  assumes "(numeral k :: nat) < 2 ^ 31"
  shows "canvas_dimension d (Fin (numeral k)) = Fin (numeral k)"
  using canvas_dimension_nat_eq [OF assms] by (simp only: of_nat_numeral)

lemma fl_75_4: "fl (75 / 4) = Fin (75 / 4)"
  using fl_dyadic [of 75 2] by simp

lemma fl_5_8: "fl (5 / 8) = Fin (5 / 8)"
  using fl_dyadic [of 5 3] by simp

lemma dbl_numeral:
  assumes "(numeral k :: nat) < 2 ^ 53"
  shows "dbl (numeral k)"
  using dbl_nat [OF assms] by (simp only: of_nat_numeral)

lemma dbl_85_2: "dbl (85 / 2)"
  by (rule dblI [where m = 85 and p = "- 1"]) simp_all

lemma ceiling_rnd_128_3: "\<lceil>rnd (128 / 3)\<rceil> = 43"
proof -
  have "rnd (128 / 3) \<le> 43" by (rule rnd_le) (simp_all add: dbl_numeral)
  moreover have "85 / 2 \<le> rnd (128 / 3)" by (rule rnd_ge) (simp_all add: dbl_85_2)
  ultimately show ?thesis by (simp add: ceiling_eq_iff)
qed

lemma fl_rnd_128_3: "fl (128 / 3) = Fin (rnd (128 / 3))"
  by (rule fl_finite [where k = 6]) simp_all

lemma fl_rnd_128_3': "fl (rnd (128 / 3)) = Fin (rnd (128 / 3))"
  by (rule fl_rnd [where k = 6]) simp_all

lemma computeGeometry64_800x600:
  "computeGeometry64 (Fin 800) (Fin 600) (Fin 1) (Fin 32) =
    \<lparr>tileEdge = Fin 18.75, grid_rows = Fin 32, grid_cols = Fin 43, centerX = Fin 400,
     centerY = Fin 300, maxDistance = Fin 500\<rparr>"
  by (simp add: computeGeometry64_def Let_def js_div64_def Math_min_Fin fl_75_4 fl_rnd_128_3
      fl_rnd_128_3' ceiling_rnd_128_3 Math_sqrt64_def js_add64_def js_square64_def sqrt_250000)

theorem canvasResize64_geometry_witness:
  "\<exists>cv. canvas (canvasResize64 (TiledSwirl_fields canvas0 None) window_800x600) = Some cv \<and>
     width cv = Fin 800 \<and> height cv = Fin 600 \<and>
     size_tile (canvasResize64 (TiledSwirl_fields canvas0 None) window_800x600) = Fin 18.75 \<and>
     rows (canvasResize64 (TiledSwirl_fields canvas0 None) window_800x600) = Fin 32 \<and>
     cols (canvasResize64 (TiledSwirl_fields canvas0 None) window_800x600) = Fin 43 \<and>
     centerX64_of cv window_800x600 = Fin 400 \<and> centerY64_of cv window_800x600 = Fin 300 \<and>
     distanceMax (canvasResize64 (TiledSwirl_fields canvas0 None) window_800x600) = Fin 500"
proof -
  have c: "canvas (TiledSwirl_fields canvas0 None) = Some canvas0"
    by (simp add: TiledSwirl_fields_def)
  have v: "canvas_dimension 300 (js_mul64 (innerWidth window_800x600) (Fin 1)) = Fin 800"
    "canvas_dimension 150 (js_mul64 (innerHeight window_800x600) (Fin 1)) = Fin 600"
    by (simp_all add: window_800x600_def js_mul64_def)
  have f: "devicePixelRatio window_800x600 = Fin 1"
    "density (TiledSwirl_fields canvas0 None) = Fin 32"
    by (simp_all add: window_800x600_def TiledSwirl_fields_def)
  have r: "devicePixelRatio window_800x600 = Fin 1 \<and> 2 powi (- 960) \<le> \<bar>1 :: real\<bar> \<and>
      \<bar>1 :: real\<bar> \<le> 2 powi 960"
    using two_powi_mono [of "- 960" 0] two_powi_mono [of 0 960] f(1) by simp
  note t = canvasResize64_geometry [OF c, of window_800x600]
  show ?thesis
    using t r unfolding Let_def f v computeGeometry64_800x600 by auto
qed

section \<open>Drawing after a resize\<close>

lemma for_loop_throws_at:
  assumes "P i acc" and "i \<le> n" and "n < nat \<lceil>c\<rceil>"
    and "\<And>i acc. P i acc \<Longrightarrow> i < n \<Longrightarrow> \<exists>acc'. body i acc = Some (Normal acc') \<and> P (Suc i) acc'"
    and "\<And>acc. P n acc \<Longrightarrow> \<exists>acc'. body n acc = Some (Throw e acc')"
  shows "\<exists>acc'. for_loop (Fin c) body i acc = Some (Throw e acc')"
  using assms(1,2)
proof (induction "n - i" arbitrary: i acc)
  case 0
  then have "i = n" by simp
  from assms(5) [OF 0(2) [unfolded \<open>i = n\<close>]] obtain acc' where b: "body n acc = Some (Throw e acc')"
    by blast
  have lt: "js_lt (Fin (real n)) (Fin c)"
    using assms(3) by (simp only: js_lt_nat_ceiling)
  have "for_loop (Fin c) body n acc = Some (Throw e acc')"
    by (subst for_loop.simps) (simp only: lt if_True b option.case completion.case)
  then show ?case using \<open>i = n\<close> by blast
next
  case (Suc k)
  then have lt: "i < n" by simp
  from assms(4) [OF Suc(3) lt] obtain acc1 where
    b: "body i acc = Some (Normal acc1)" and p: "P (Suc i) acc1" by blast
  have "k = n - Suc i" using Suc(2) by simp
  moreover have "Suc i \<le> n" using lt by simp
  ultimately obtain acc' where r: "for_loop (Fin c) body (Suc i) acc1 = Some (Throw e acc')"
    using Suc(1) [OF _ p] by blast
  have lt': "js_lt (Fin (real i)) (Fin c)"
    using lt assms(3) by (simp only: js_lt_nat_ceiling)
  have "for_loop (Fin c) body i acc = Some (Throw e acc')"
    by (subst for_loop.simps) (simp only: lt' if_True b r option.case completion.case)
  then show ?case by blast
qed

lemma draw_cell64_defined_column:
  assumes "js_get (colors this) i = Some row"
  shows "\<exists>calls'. draw_cell64 L this cx cy i j calls = Some (Normal calls')"
  using assms by (simp add: draw_cell64_def Let_def)

lemma draw_cell64_undefined_column:
  assumes "js_get (colors this) i = None"
  shows "draw_cell64 L this cx cy i j calls = Some (Throw TypeError calls)"
  using assms by (simp add: draw_cell64_def Let_def)

lemma draw64_column_normal:
  assumes "js_get (colors this) i = Some row" and "rows this = Fin R"
  shows "\<exists>calls'. for_loop (rows this) (draw_cell64 L this cx cy i) 0 calls = Some (Normal calls')"
proof -
  have "\<exists>acc'. for_loop (Fin R) (draw_cell64 L this cx cy i) 0 calls = Some (Normal acc') \<and> True"
    by (rule for_loop_total [where P = "\<lambda>j acc. True"])
      (use draw_cell64_defined_column [OF assms(1)] in auto)
  then show ?thesis by (simp add: assms(2))
qed

lemma draw64_column_throws:
  assumes "js_get (colors this) i = None" and "rows this = Fin R" and "0 < R"
  shows "for_loop (rows this) (draw_cell64 L this cx cy i) 0 calls = Some (Throw TypeError calls)"
  using assms
  by (subst for_loop.simps) (simp add: draw_cell64_undefined_column)

lemma canvasResize64_keeps:
  "time (canvasResize64 this win) = time this"
  "colors (canvasResize64 this win) = colors this"
  "isDark (canvasResize64 this win) = isDark this"
  "density (canvasResize64 this win) = density this"
  "edge (canvasResize64 this win) = edge this"
  "ripple (canvasResize64 this win) = ripple this"
  "speed (canvasResize64 this win) = speed this"
  "tightness (canvasResize64 this win) = tightness this"
  "palette (canvasResize64 this win) = palette this"
  by (simp_all add: canvasResize64_def Let_def split: option.split)

lemma swirl64_before_colors_fields:
  "cols swirl64_before_colors = Fin 32" "rows swirl64_before_colors = Fin 32"
  "palette swirl64_before_colors = ['''', ''hsl(343, 90%, 50%)'', ''hsl(43, 90%, 50%)'', ''hsl(223, 90%, 50%)'']"
  "canvas swirl64_before_colors = Some (canvas0\<lparr>width := Fin 20, height := Fin 20, style_width := Fin 20, style_height := Fin 20\<rparr>)"
  "density swirl64_before_colors = Fin 32"
  "ctx swirl64_before_colors = Some [Scale (Fin 1) (Fin 1)]"
  by (simp_all add: swirl64_before_colors_def checkDarkTheme_def canvasResize64_def Let_def
      TiledSwirl_fields_def window_20x20_def Math_min_Fin js_mul64_def js_div64_def fl_5_8)

lemma zero_cell64: "cell_value swirl64_before_colors entropy_zero k = Some []"
  by (simp add: cell_value_def swirl64_before_colors_fields entropy_zero_def Utils_random_def
      palette_at_def)

lemma colorsInit64_32x32:
  "colorsInit swirl64_before_colors entropy_zero = Some (Normal swirl64_32x32)"
proof -
  from colorsInit_total [where E = "\<lambda>v. v = Some []" and this = swirl64_before_colors
      and entropy = entropy_zero, OF zero_cell64 swirl64_before_colors_fields(1,2)]
  obtain cs where cs: "colorsInit swirl64_before_colors entropy_zero =
      Some (Normal (swirl64_before_colors\<lparr>colors := cs\<rparr>))" "length cs = nat \<lceil>32 :: real\<rceil>"
    "list_all (row_all (\<lambda>v. v = Some [])) cs" "list_all (row_length (nat \<lceil>32 :: real\<rceil>)) cs"
    by blast
  have "cs = replicate 32 (Some (replicate 32 (Some [])))"
    using constant_table [OF cs(2) cs(3) cs(4)] by simp
  then show ?thesis
    using cs(1) by (simp add: swirl64_32x32_def)
qed

lemma swirl64_32x32_column:
  assumes "i < 32"
  shows "js_get (colors (canvasResize64 swirl64_32x32 win)) i = Some (replicate 32 (Some []))"
  using assms by (simp add: canvasResize64_keeps swirl64_32x32_def js_get_def)

lemma swirl64_resized:
  "cols (canvasResize64 swirl64_32x32 window_40x20) = Fin 64"
  "rows (canvasResize64 swirl64_32x32 window_40x20) = Fin 32"
  "\<exists>cv. canvas (canvasResize64 swirl64_32x32 window_40x20) = Some cv"
  "\<exists>calls. ctx (canvasResize64 swirl64_32x32 window_40x20) = Some calls"
  by (simp_all add: swirl64_32x32_def swirl64_before_colors_fields canvasResize64_def Let_def
      window_40x20_def Math_min_Fin js_mul64_def js_div64_def fl_5_8)

text \<open>
  Claim C2: the program contradicts its own documentation here. \<open>canvasResize\<close> is
  documented as making the canvas ``fill entire viewport'' and \<open>colorsInit\<close> as populating
  ``the array of colors used by all tiles'', but the resize listener is \<open>canvasResize\<close>
  alone. A new sketch in a viewport of 20 by 20 has a grid and a colour table of 32 by 32
  and draws its frame. After a resize to 40 by 20 the grid has 64 columns and the colour
  table still has 32: \<open>draw\<close> reads \<open>this.colors[32][0]\<close> and throws a \<open>TypeError\<close>, in every
  frame, whatever the mathematical library. No newly exposed cell receives a colour.
\<close>

theorem resize_growth_throws:
  "colorsInit swirl64_before_colors entropy_zero = Some (Normal swirl64_32x32) \<and>
   cols swirl64_32x32 = Fin 32 \<and> rows swirl64_32x32 = Fin 32 \<and>
   (\<exists>this'. draw64 L swirl64_32x32 window_20x20 = Some (Normal this')) \<and>
   cols (canvasResize64 swirl64_32x32 window_40x20) = Fin 64 \<and>
   rows (canvasResize64 swirl64_32x32 window_40x20) = Fin 32 \<and>
   js_get (colors (canvasResize64 swirl64_32x32 window_40x20)) 32 = None \<and>
   (\<exists>this'. draw64 L (canvasResize64 swirl64_32x32 window_40x20) window_40x20 =
      Some (Throw TypeError this'))"
proof -
  let ?s = "canvasResize64 swirl64_32x32 window_40x20"
  have c: "canvas swirl64_32x32 = Some (canvas0\<lparr>width := Fin 20, height := Fin 20, style_width := Fin 20, style_height := Fin 20\<rparr>)"
    and x: "ctx swirl64_32x32 = Some [Scale (Fin 1) (Fin 1)]"
    by (simp_all add: swirl64_32x32_def swirl64_before_colors_fields)
  note g = swirl64_resized(1,2)
  have u: "js_get (colors ?s) 32 = None"
    by (simp add: canvasResize64_keeps swirl64_32x32_def js_get_def)
  have o: "cols swirl64_32x32 = Fin 32" "rows swirl64_32x32 = Fin 32"
    by (simp_all add: swirl64_32x32_def swirl64_before_colors_fields)
  have before: "\<exists>this'. draw64 L swirl64_32x32 window_20x20 = Some (Normal this')"
  proof -
    have col: "js_get (colors swirl64_32x32) i = Some (replicate 32 (Some []))" if "i < 32" for i
      using that by (simp add: swirl64_32x32_def js_get_def)
    have "\<exists>acc'. for_loop (Fin 32)
        (\<lambda>i. for_loop (rows swirl64_32x32) (draw_cell64 L swirl64_32x32 cx cy i) 0) 0 calls
        = Some (Normal acc') \<and> True" for cx cy calls
      by (rule for_loop_total [where P = "\<lambda>i acc. True"])
        (use draw64_column_normal [OF col o(2)] in auto)
    then obtain acc' where "for_loop (Fin 32)
        (\<lambda>i. for_loop (rows swirl64_32x32)
           (draw_cell64 L swirl64_32x32
              (centerX64_of (canvas0\<lparr>width := Fin 20, height := Fin 20, style_width := Fin 20, style_height := Fin 20\<rparr>) window_20x20)
              (centerY64_of (canvas0\<lparr>width := Fin 20, height := Fin 20, style_width := Fin 20, style_height := Fin 20\<rparr>) window_20x20) i) 0)
        0 [Scale (Fin 1) (Fin 1)] = Some (Normal acc')"
      by blast
    then show ?thesis
      by (simp add: draw64_def Let_def c x o(1))
  qed
  have after: "\<exists>this'. draw64 L ?s window_40x20 = Some (Throw TypeError this')"
  proof -
    have "\<exists>acc'. for_loop (Fin 64) (\<lambda>i. for_loop (rows ?s) (draw_cell64 L ?s cx cy i) 0) 0 calls
        = Some (Throw TypeError acc')" for cx cy calls
    proof (rule for_loop_throws_at [where P = "\<lambda>i acc. True" and n = 32])
      show "\<exists>acc'. for_loop (rows ?s) (draw_cell64 L ?s cx cy i) 0 acc = Some (Normal acc') \<and> True"
        if "i < 32" for i acc
        using draw64_column_normal [OF swirl64_32x32_column [OF that] g(2)] by auto
      show "\<exists>acc'. for_loop (rows ?s) (draw_cell64 L ?s cx cy 32) 0 acc = Some (Throw TypeError acc')" for acc
        using draw64_column_throws [OF u g(2)] by auto
    qed simp_all
    moreover obtain cv calls where "canvas ?s = Some cv" "ctx ?s = Some calls"
      using swirl64_resized(3,4) by blast
    ultimately obtain acc' where "for_loop (Fin 64)
        (\<lambda>i. for_loop (rows ?s) (draw_cell64 L ?s (centerX64_of cv window_40x20) (centerY64_of cv window_40x20) i) 0)
        0 calls = Some (Throw TypeError acc')" and "canvas ?s = Some cv" and "ctx ?s = Some calls"
      by blast
    then show ?thesis
      by (simp add: draw64_def Let_def g(1))
  qed
  show ?thesis
    using colorsInit64_32x32 o g u before after by simp
qed

end
